theory Spec2Isabelle
  imports Complex_Main "HOL-Library.AList" "HOL-Library.Multiset" "HOL-Library.Sublist"
    "HOL-Library.Log_Nat"
begin

section \<open>Python strings\<close>

text \<open>
  A Python \<^verbatim>\<open>str\<close> is a sequence of code points. The model is \<^typ>\<open>string\<close>, a list of
  \<^typ>\<open>char\<close>, each \<^typ>\<open>char\<close> standing for the code point with the same number
  (0 to 255). The character classes are the ones CPython assigns to these code points:
  \<^verbatim>\<open>str.isspace\<close> and the regular-expression class \<^verbatim>\<open>\s\<close> agree, \<^verbatim>\<open>\w\<close> is
  \<^verbatim>\<open>str.isalnum\<close> or the underscore, \<^verbatim>\<open>\d\<close> is the decimal digits.
\<close>

definition code_point :: "char \<Rightarrow> nat" where
  "code_point c = of_char c"

definition isspace :: "char \<Rightarrow> bool" where
  "isspace c =
     (let n = code_point c
      in (9 \<le> n \<and> n \<le> 13) \<or> (28 \<le> n \<and> n \<le> 32) \<or> n = 133 \<or> n = 160)"

definition isword :: "char \<Rightarrow> bool" where
  "isword c =
     (let n = code_point c
      in (48 \<le> n \<and> n \<le> 57) \<or> (65 \<le> n \<and> n \<le> 90) \<or> n = 95 \<or> (97 \<le> n \<and> n \<le> 122) \<or>
         n = 170 \<or> n = 178 \<or> n = 179 \<or> n = 181 \<or> n = 185 \<or> n = 186 \<or>
         (188 \<le> n \<and> n \<le> 190) \<or> (192 \<le> n \<and> n \<le> 214) \<or> (216 \<le> n \<and> n \<le> 246) \<or>
         (248 \<le> n \<and> n \<le> 255))"

definition isdigit :: "char \<Rightarrow> bool" where
  "isdigit c = (let n = code_point c in 48 \<le> n \<and> n \<le> 57)"

text \<open>The ASCII ranges \<^verbatim>\<open>[A-Z]\<close> and \<^verbatim>\<open>[a-z]\<close> of the regular expressions.\<close>

definition ascii_upper :: "char \<Rightarrow> bool" where
  "ascii_upper c = (let n = code_point c in 65 \<le> n \<and> n \<le> 90)"

definition ascii_lower :: "char \<Rightarrow> bool" where
  "ascii_lower c = (let n = code_point c in 97 \<le> n \<and> n \<le> 122)"

text \<open>The characters \<^verbatim>\<open>str.isupper\<close> and \<^verbatim>\<open>str.islower\<close> count as cased.\<close>

definition char_isupper :: "char \<Rightarrow> bool" where
  "char_isupper c =
     (let n = code_point c
      in (65 \<le> n \<and> n \<le> 90) \<or> (192 \<le> n \<and> n \<le> 214) \<or> (216 \<le> n \<and> n \<le> 222))"

definition char_islower :: "char \<Rightarrow> bool" where
  "char_islower c =
     (let n = code_point c
      in (97 \<le> n \<and> n \<le> 122) \<or> n = 170 \<or> n = 181 \<or> n = 186 \<or>
         (223 \<le> n \<and> n \<le> 246) \<or> (248 \<le> n \<and> n \<le> 255))"

text \<open>\<^verbatim>\<open>s.isupper()\<close>: no lower-case character and at least one upper-case character.\<close>

definition str_isupper :: "string \<Rightarrow> bool" where
  "str_isupper s = ((\<forall>c \<in> set s. \<not> char_islower c) \<and> (\<exists>c \<in> set s. char_isupper c))"

text \<open>\<^verbatim>\<open>s.lower()\<close>: in this range every upper-case character has its lower-case
  partner 32 code points above it.\<close>

definition char_lower :: "char \<Rightarrow> char" where
  "char_lower c = (if char_isupper c then char_of (code_point c + 32) else c)"

definition str_lower :: "string \<Rightarrow> string" where
  "str_lower s = map char_lower s"

text \<open>\<^verbatim>\<open>s.strip()\<close>, \<^verbatim>\<open>s.rstrip(':')\<close>, \<^verbatim>\<open>s.endswith(':')\<close> and
  \<^verbatim>\<open>s.split('\n')\<close>.\<close>

definition strip :: "string \<Rightarrow> string" where
  "strip s = rev (dropWhile isspace (rev (dropWhile isspace s)))"

definition rstrip_colon :: "string \<Rightarrow> string" where
  "rstrip_colon s = rev (dropWhile (\<lambda>c. c = CHR '':'') (rev s))"

definition endswith_colon :: "string \<Rightarrow> bool" where
  "endswith_colon s = (s \<noteq> [] \<and> last s = CHR '':'')"

fun split_newline :: "string \<Rightarrow> string list" where
  "split_newline [] = [[]]"
| "split_newline (c # cs) =
     (if c = CHR 0x0A then [] # split_newline cs
      else (case split_newline cs of
              [] \<Rightarrow> [[c]]
            | l # ls \<Rightarrow> (c # l) # ls))"

text \<open>\<^verbatim>\<open>sub in s\<close> is \<^term>\<open>sublist sub s\<close>. \<^verbatim>\<open>s.count(sub)\<close> counts the occurrences
  of \<open>sub\<close> from left to right without overlap; for the empty \<open>sub\<close> it is
  \<open>len(s) + 1\<close>.\<close>

function count_from :: "string \<Rightarrow> string \<Rightarrow> nat" where
  "count_from sub [] = 0"
| "count_from sub (c # cs) =
     (if sub = [] then 0
      else if prefix sub (c # cs) then 1 + count_from sub (drop (length sub) (c # cs))
      else count_from sub cs)"
  by pat_completeness auto
termination
  by (relation "measure (\<lambda>(sub, s). length s)") (auto simp: neq_Nil_conv)

definition str_count :: "string \<Rightarrow> string \<Rightarrow> nat" where
  "str_count s sub = (if sub = [] then length s + 1 else count_from sub s)"

section \<open>The text normalizer\<close>

text \<open>
  \<^verbatim>\<open>re.sub\<close> with a pattern \<^verbatim>\<open>C{n,}\<close> for a character class \<open>C\<close> (\<^verbatim>\<open>C+\<close> is
  \<open>n = 1\<close>) and a constant replacement: scanning from the left, the greedy match at a
  character of the class is the whole maximal run starting there; a run of at least
  \<open>n\<close> characters is replaced, a shorter one has no match inside it and stays.
\<close>

function sub_runs :: "(char \<Rightarrow> bool) \<Rightarrow> nat \<Rightarrow> string \<Rightarrow> string \<Rightarrow> string" where
  "sub_runs C n repl [] = []"
| "sub_runs C n repl (c # cs) =
     (if C c then
        (let run = c # takeWhile C cs
         in (if n \<le> length run then repl else run) @ sub_runs C n repl (dropWhile C cs))
      else c # sub_runs C n repl cs)"
  by pat_completeness auto
termination
  by (relation "measure (\<lambda>(C, n, repl, s). length s)")
     (auto simp: le_imp_less_Suc length_dropWhile_le)

text \<open>The punctuation of the class \<^verbatim>\<open>[\.\,\;\:\!\?]\<close>.\<close>

definition ispunct :: "char \<Rightarrow> bool" where
  "ispunct c = (c \<in> set ''.,;:!?'')"

text \<open>
  \<^verbatim>\<open>re.sub(r'\s+([\.\,\;\:\!\?])', r'\1', text)\<close>: a maximal run of white space that
  is followed by one of the punctuation characters is removed, the punctuation
  character is kept and the scan goes on behind it; a run followed by anything else
  (or by the end) has no match inside it.
\<close>

function sub_space_before_punct :: "string \<Rightarrow> string" where
  "sub_space_before_punct [] = []"
| "sub_space_before_punct (c # cs) =
     (if isspace c then
        (case dropWhile isspace cs of
           [] \<Rightarrow> c # cs
         | p # rest \<Rightarrow>
             if ispunct p then p # sub_space_before_punct rest
             else c # takeWhile isspace cs @ p # sub_space_before_punct rest)
      else c # sub_space_before_punct cs)"
  by pat_completeness auto
termination
proof (relation "measure length", goal_cases)
  case 1
  show ?case by simp
next
  case (2 c cs p rest)
  have "length (dropWhile isspace cs) \<le> length cs"
    by (rule length_dropWhile_le)
  with 2 show ?case by simp
next
  case (3 c cs p rest)
  have "length (dropWhile isspace cs) \<le> length cs"
    by (rule length_dropWhile_le)
  with 3 show ?case by simp
next
  case 4
  show ?case by simp
qed

text \<open>The characters that \<^verbatim>\<open>[^\w\s\.\,\;\:\!\?\-\(\)\[\]\{\}\"\']\<close> does not match,
  that is, the ones the second substitution keeps.\<close>

definition allowed_char :: "char \<Rightarrow> bool" where
  "allowed_char c =
     (isword c \<or> isspace c \<or> c \<in> set ''.,;:!?-()[]{}'' \<or> c = CHR 0x22 \<or> c = CHR 0x27)"

definition clean_text :: "string \<Rightarrow> string" where
  "clean_text text =
     (if text = [] then []
      else
        let t1 = sub_runs isspace 1 '' '' (strip text);
            t2 = filter allowed_char t1;
            t3 = sub_runs (\<lambda>c. c = CHR ''.'') 2 ''.'' t2;
            t4 = sub_runs (\<lambda>c. c = CHR ''!'') 2 ''!'' t3;
            t5 = sub_runs (\<lambda>c. c = CHR ''?'') 2 ''?'' t4;
            t6 = sub_space_before_punct t5;
            t7 = sub_runs isspace 2 '' '' t6
        in strip t7)"

text \<open>
  The shape of a normalized text: no white space at either end, every white-space
  character a single blank, only characters of the allow-list, and no white space in
  front of a punctuation character.
\<close>

definition stripped :: "string \<Rightarrow> bool" where
  "stripped t = (t = [] \<or> (\<not> isspace (hd t) \<and> \<not> isspace (last t)))"

definition good_char :: "char \<Rightarrow> bool" where
  "good_char c = (allowed_char c \<and> (isspace c \<longrightarrow> c = CHR '' ''))"

definition normal_form :: "string \<Rightarrow> bool" where
  "normal_form t =
     (stripped t \<and> (\<forall>c \<in> set t. good_char c) \<and>
      successively (\<lambda>a b. \<not> (isspace a \<and> isspace b)) t \<and>
      successively (\<lambda>a b. \<not> (isspace a \<and> ispunct b)) t)"

section \<open>The section segmenter\<close>

text \<open>The dictionary \<^verbatim>\<open>{"title": ..., "content": ..., "page_number": ...}\<close> that
  \<^verbatim>\<open>extract_sections\<close> builds has these three keys throughout.\<close>

record doc_section =
  title :: string
  content :: string
  page_number :: int

text \<open>
  The header heuristics, on a stripped line (which holds no newline, so \<^verbatim>\<open>.\<close> matches
  every character of it and \<^verbatim>\<open>$\<close> only its end).
  \<^verbatim>\<open>re.match(r'^\d+\.\s+[A-Z]', line)\<close>: the greedy runs of digits and of white space
  are maximal, since the character required behind each is outside the run's class.
  \<^verbatim>\<open>re.match(r'^[A-Z][a-z]+.*:$', line)\<close>: an upper-case letter, a lower-case letter,
  and a colon as the last character, behind the two.
\<close>

definition numbered_heading :: "string \<Rightarrow> bool" where
  "numbered_heading line =
     (takeWhile isdigit line \<noteq> [] \<and>
      (case dropWhile isdigit line of
         [] \<Rightarrow> False
       | d # rest \<Rightarrow>
           d = CHR ''.'' \<and> takeWhile isspace rest \<noteq> [] \<and>
           (case dropWhile isspace rest of
              [] \<Rightarrow> False
            | u # _ \<Rightarrow> ascii_upper u)))"

definition capitalized_colon :: "string \<Rightarrow> bool" where
  "capitalized_colon line =
     (case line of
        u # l # rest \<Rightarrow> ascii_upper u \<and> ascii_lower l \<and> endswith_colon rest
      | _ \<Rightarrow> False)"

definition is_header :: "string \<Rightarrow> bool" where
  "is_header line =
     (str_isupper line \<or> numbered_heading line \<or> capitalized_colon line \<or>
      (length line < 100 \<and> endswith_colon line))"

text \<open>Saving the accumulator: only if its content is not blank; title and content are
  normalized on the way.\<close>

definition save_section :: "doc_section list \<Rightarrow> doc_section \<Rightarrow> doc_section list" where
  "save_section sections current_section =
     (if strip (content current_section) \<noteq> [] then
        sections @ [current_section
          \<lparr>content := clean_text (content current_section),
           title := clean_text (title current_section)\<rparr>]
      else sections)"

text \<open>The loop over \<^verbatim>\<open>enumerate(lines)\<close>; the state is the list of saved sections and
  the accumulator.\<close>

fun extract_loop :: "nat \<Rightarrow> string list \<Rightarrow> doc_section list \<Rightarrow> doc_section \<Rightarrow> doc_section list \<times> doc_section" where
  "extract_loop i [] sections current_section = (sections, current_section)"
| "extract_loop i (raw # lines) sections current_section =
     (let line = strip raw
      in if line = [] then extract_loop (i + 1) lines sections current_section
         else if is_header line then
           extract_loop (i + 1) lines (save_section sections current_section)
             \<lparr>title = rstrip_colon line, content = [], page_number = int (i div 50) + 1\<rparr>
         else
           extract_loop (i + 1) lines sections
             (current_section\<lparr>content := content current_section @ line @ [CHR 0x0A]\<rparr>))"

definition candidate_sections :: "string \<Rightarrow> doc_section list" where
  "candidate_sections text =
     (let (sections, current_section) =
            extract_loop 0 (split_newline text) []
              \<lparr>title = ''Introduction'', content = [], page_number = 1\<rparr>
      in save_section sections current_section)"

definition valid_section :: "doc_section \<Rightarrow> bool" where
  "valid_section s =
     (strip (title s) \<noteq> [] \<and> strip (content s) \<noteq> [] \<and> 10 < length (content s))"

definition extract_sections :: "string \<Rightarrow> doc_section list" where
  "extract_sections text = filter valid_section (candidate_sections text)"

section \<open>Python floats\<close>

text \<open>
  A Python \<^verbatim>\<open>float\<close> is an IEEE 754 binary64 number. A finite one is modelled by its
  exact value, a rational. \<open>fl\<close> rounds a rational to the nearest binary64 value, ties
  to the even significand, with gradual underflow below \<open>2\<^sup>-\<^sup>1\<^sup>0\<^sup>2\<^sup>2\<close>; every float
  operation is the exact operation followed by \<open>fl\<close>. Overflow is not modelled: the
  values computed here stay far below \<open>2\<^sup>1\<^sup>0\<^sup>2\<^sup>4\<close>.
\<close>

text \<open>Rounding to the nearest integer, ties to even.\<close>

definition rne :: "rat \<Rightarrow> int" where
  "rne x =
     (let f = \<lfloor>x\<rfloor>; d = x - of_int f
      in if d < 1 / 2 then f
         else if 1 / 2 < d then f + 1
         else if even f then f else f + 1)"

text \<open>The binary exponent \<open>\<lfloor>log\<^sub>2 x\<rfloor>\<close> of a positive rational, from the bit lengths of
  its numerator and denominator.\<close>

definition ilog2 :: "rat \<Rightarrow> int" where
  "ilog2 x =
     (let (p, q) = quotient_of x;
          e = bitlen p - bitlen q
      in if power_int 2 e \<le> x then e else e - 1)"

definition fl :: "rat \<Rightarrow> rat" where
  "fl x =
     (if x = 0 then 0
      else
        let e = max (ilog2 \<bar>x\<bar>) (- 1022);
            u = power_int 2 (e - 52)
        in sgn x * of_int (rne (\<bar>x\<bar> / u)) * u)"

definition fadd :: "rat \<Rightarrow> rat \<Rightarrow> rat" where
  "fadd x y = fl (x + y)"

definition fmul :: "rat \<Rightarrow> rat \<Rightarrow> rat" where
  "fmul x y = fl (x * y)"

text \<open>\<^verbatim>\<open>float(n)\<close> of an integer, also the conversion in \<^verbatim>\<open>n * 0.1\<close>.\<close>

definition int_to_float :: "int \<Rightarrow> rat" where
  "int_to_float n = fl (of_int n)"

text \<open>\<^verbatim>\<open>round(x, 2)\<close>: the exact value of \<open>x\<close> is rounded to two decimals, ties to
  even, and the decimal result is converted back to the nearest float.\<close>

definition py_round2 :: "rat \<Rightarrow> rat" where
  "py_round2 x = fl (of_int (rne (x * 100)) / 100)"

section \<open>Python values, dictionaries and errors\<close>

datatype nonfinite = NaN | PosInf | NegInf

datatype pyval =
    PyNone
  | PyBool bool
  | PyInt int
  | PyFloat rat
  | PyNonFinite nonfinite
  | PyStr string
  | PyList "pyval list"
  | PyDict "(string \<times> pyval) list"

text \<open>A \<^verbatim>\<open>dict\<close> with string keys, in insertion order: \<^term>\<open>map_of d k\<close> reads a key,
  \<^term>\<open>AList.update k v d\<close> is \<^verbatim>\<open>d[k] = v\<close>.\<close>

type_synonym dict = "(string \<times> pyval) list"

datatype error = KeyError string | AttributeError string | TypeError | ValueError

section \<open>The persona scorer\<close>

record persona_config =
  "keywords" :: "string list"
  priority_sections :: "string list"

definition personas :: "(string \<times> persona_config) list" where
  "personas =
     [(''executive'',
       \<lparr>keywords = [''strategy'', ''business'', ''revenue'', ''growth'', ''market'',
                    ''leadership'', ''vision''],
        priority_sections = [''executive summary'', ''business model'', ''market analysis'',
                             ''financial projections'']\<rparr>),
      (''technical'',
       \<lparr>keywords = [''technology'', ''implementation'', ''architecture'', ''code'',
                    ''development'', ''technical'', ''api''],
        priority_sections = [''technical architecture'', ''implementation details'',
                             ''code examples'', ''system design'']\<rparr>),
      (''marketing'',
       \<lparr>keywords = [''marketing'', ''brand'', ''customer'', ''user'', ''growth'',
                    ''acquisition'', ''engagement''],
        priority_sections = [''marketing strategy'', ''user acquisition'', ''customer journey'',
                             ''brand positioning'']\<rparr>),
      (''investor'',
       \<lparr>keywords = [''investment'', ''funding'', ''financial'', ''roi'', ''valuation'',
                    ''exit'', ''returns''],
        priority_sections = [''financial projections'', ''business model'',
                             ''market opportunity'', ''investment thesis'']\<rparr>)]"

text \<open>\<^verbatim>\<open>section[key].lower()\<close>: a missing key raises \<^verbatim>\<open>KeyError\<close>, a value that is
  not a string has no method \<^verbatim>\<open>lower\<close>.\<close>

definition lower_item :: "dict \<Rightarrow> string \<Rightarrow> error + string" where
  "lower_item d key =
     (case map_of d key of
        None \<Rightarrow> Inl (KeyError key)
      | Some (PyStr s) \<Rightarrow> Inr (str_lower s)
      | Some _ \<Rightarrow> Inl (AttributeError ''lower''))"

text \<open>The three loops of \<^verbatim>\<open>calculate_section_score\<close>, each with its accumulator.
  The literals \<^verbatim>\<open>0.3\<close>, \<^verbatim>\<open>0.1\<close>, \<^verbatim>\<open>0.2\<close> are the floats nearest to them.\<close>

fun title_score_loop :: "string list \<Rightarrow> string \<Rightarrow> rat \<Rightarrow> rat" where
  "title_score_loop [] title_lower title_score = title_score"
| "title_score_loop (keyword # ks) title_lower title_score =
     title_score_loop ks title_lower
       (if sublist (str_lower keyword) title_lower then fadd title_score (fl (3 / 10))
        else title_score)"

fun content_score_loop :: "string list \<Rightarrow> string \<Rightarrow> rat \<Rightarrow> rat" where
  "content_score_loop [] content_lower content_score = content_score"
| "content_score_loop (keyword # ks) content_lower content_score =
     (let count = str_count content_lower (str_lower keyword)
      in content_score_loop ks content_lower
           (fadd content_score (min (fmul (int_to_float (int count)) (fl (1 / 10))) (1 / 2))))"

fun priority_bonus_loop :: "string list \<Rightarrow> string \<Rightarrow> rat" where
  "priority_bonus_loop [] title_lower = 0"
| "priority_bonus_loop (priority_section # ps) title_lower =
     (if sublist (str_lower priority_section) title_lower then fl (2 / 10)
      else priority_bonus_loop ps title_lower)"

definition calculate_section_score :: "dict \<Rightarrow> string \<Rightarrow> error + rat" where
  "calculate_section_score section pname =
     (case map_of personas pname of
        None \<Rightarrow> Inr 0
      | Some persona_config \<Rightarrow>
          (case lower_item section ''title'' of
             Inl e \<Rightarrow> Inl e
           | Inr title_lower \<Rightarrow>
               let title_score = title_score_loop (keywords persona_config) title_lower 0
               in (case lower_item section ''content'' of
                     Inl e \<Rightarrow> Inl e
                   | Inr content_lower \<Rightarrow>
                       let content_score =
                             content_score_loop (keywords persona_config) content_lower 0;
                           priority_bonus =
                             priority_bonus_loop (priority_sections persona_config) title_lower
                       in Inr (min (fadd (fadd title_score content_score) priority_bonus) 1))))"

section \<open>The ranker\<close>

text \<open>
  The ranker copies each dictionary of its input list and writes into the copies, so
  dictionaries are objects here: the store is the list of all dictionaries, a reference
  is a position in it, and a list of sections is a list of references. A new object
  goes to the end of the store. A reference held by a Python list always points to an
  object, that is, it is below the length of the store.
\<close>

type_synonym ref = nat

type_synonym heap = "dict list"

definition alloc :: "heap \<Rightarrow> dict \<Rightarrow> heap \<times> ref" where
  "alloc h d = (h @ [d], length h)"

definition setitem :: "heap \<Rightarrow> ref \<Rightarrow> string \<Rightarrow> pyval \<Rightarrow> heap" where
  "setitem h r key v = h[r := AList.update key v (h ! r)]"

text \<open>The first loop: score, \<^verbatim>\<open>section.copy()\<close>, store the score in the copy, append
  the copy.\<close>

fun score_loop :: "heap \<Rightarrow> ref list \<Rightarrow> string \<Rightarrow> ref list \<Rightarrow> error + heap \<times> ref list" where
  "score_loop h [] pname scored_sections = Inr (h, scored_sections)"
| "score_loop h (section # rest) pname scored_sections =
     (case calculate_section_score (h ! section) pname of
        Inl e \<Rightarrow> Inl e
      | Inr score \<Rightarrow>
          let (h1, scored_section) = alloc h (h ! section);
              h2 = setitem h1 scored_section ''relevance_score'' (PyFloat score)
          in score_loop h2 rest pname (scored_sections @ [scored_section]))"

text \<open>
  Reading \<^verbatim>\<open>x["relevance_score"]\<close> as a float, for the sort key and for
  \<^verbatim>\<open>float(section["relevance_score"])\<close>. The first loop has stored a finite float under
  this key in every dictionary that is read here; a missing key is a \<^verbatim>\<open>KeyError\<close>, and
  a value of another type, which does not occur, is not followed further.
\<close>

definition float_item :: "dict \<Rightarrow> string \<Rightarrow> error + rat" where
  "float_item d key =
     (case map_of d key of
        None \<Rightarrow> Inl (KeyError key)
      | Some (PyFloat x) \<Rightarrow> Inr x
      | Some _ \<Rightarrow> Inl TypeError)"

text \<open>
  \<^verbatim>\<open>scored_sections.sort(key=lambda x: x["relevance_score"], reverse=True)\<close>: the keys
  are computed first, one per element; the sort is stable and, with \<^verbatim>\<open>reverse=True\<close>,
  descending, elements with equal keys keeping their order. A stable sort has one
  result only, so the stable insertion sort \<^const>\<open>sort_key\<close> on the negated key
  stands for it.
\<close>

fun sort_keys :: "heap \<Rightarrow> ref list \<Rightarrow> error + (rat \<times> ref) list" where
  "sort_keys h [] = Inr []"
| "sort_keys h (x # xs) =
     (case float_item (h ! x) ''relevance_score'' of
        Inl e \<Rightarrow> Inl e
      | Inr k \<Rightarrow>
          (case sort_keys h xs of
             Inl e \<Rightarrow> Inl e
           | Inr keyed \<Rightarrow> Inr ((k, x) # keyed)))"

definition sort_reverse :: "(rat \<times> ref) list \<Rightarrow> ref list" where
  "sort_reverse keyed = map snd (sort_key (\<lambda>p. - fst p) keyed)"

text \<open>The second loop, over \<^verbatim>\<open>enumerate(scored_sections)\<close>.\<close>

fun rank_loop :: "heap \<Rightarrow> nat \<Rightarrow> ref list \<Rightarrow> error + heap" where
  "rank_loop h i [] = Inr h"
| "rank_loop h i (section # rest) =
     (let h1 = setitem h section ''importance_rank'' (PyInt (int i + 1))
      in case float_item (h1 ! section) ''relevance_score'' of
           Inl e \<Rightarrow> Inl e
         | Inr x \<Rightarrow>
             rank_loop (setitem h1 section ''relevance_score'' (PyFloat (py_round2 x)))
               (i + 1) rest)"

definition prioritize_sections :: "heap \<Rightarrow> ref list \<Rightarrow> string \<Rightarrow> error + heap \<times> ref list" where
  "prioritize_sections h sections pname =
     (case score_loop h sections pname [] of
        Inl e \<Rightarrow> Inl e
      | Inr (h1, scored_sections) \<Rightarrow>
          (case sort_keys h1 scored_sections of
             Inl e \<Rightarrow> Inl e
           | Inr keyed \<Rightarrow>
               let sorted_sections = sort_reverse keyed
               in (case rank_loop h1 0 sorted_sections of
                     Inl e \<Rightarrow> Inl e
                   | Inr h2 \<Rightarrow> Inr (h2, sorted_sections))))"

text \<open>
  For the statements about the ranker: a section the scorer accepts (title and content
  are strings), its score, and the dictionary that the copy of a section \<open>d\<close> with score
  \<open>x\<close> has become when it stands at position \<open>k\<close> of the result.
\<close>

definition str_item :: "dict \<Rightarrow> string \<Rightarrow> bool" where
  "str_item d key = (case map_of d key of Some (PyStr _) \<Rightarrow> True | _ \<Rightarrow> False)"

definition scorable :: "dict \<Rightarrow> bool" where
  "scorable d = (str_item d ''title'' \<and> str_item d ''content'')"

definition score_of :: "dict \<Rightarrow> string \<Rightarrow> rat" where
  "score_of d pname = (case calculate_section_score d pname of Inr x \<Rightarrow> x | Inl _ \<Rightarrow> 0)"

definition ranked_copy :: "dict \<Rightarrow> rat \<Rightarrow> nat \<Rightarrow> dict" where
  "ranked_copy d x k =
     AList.update ''relevance_score'' (PyFloat (py_round2 x))
       (AList.update ''importance_rank'' (PyInt (int k + 1))
          (AList.update ''relevance_score'' (PyFloat x) d))"

section \<open>The result validator\<close>

text \<open>
  One constructor for each message that \<^verbatim>\<open>validate_sections\<close> appends; a message
  carries the values its f-string formats (the 1-based number of the section, the
  field, the offending value, the two sets of ranks).
\<close>

datatype validation_message =
    MissingField nat string
  | RankNotInteger nat pyval
  | ScoreNotNumber nat pyval
  | ScoreOutOfRange nat pyval
  | PageNotPositiveInteger nat pyval
  | TitleTooShort nat
  | ContentTooShort nat
  | RanksNotSequential "int set" "int set"

definition required_fields :: "string list" where
  "required_fields =
     [''title'', ''content'', ''page_number'', ''importance_rank'', ''relevance_score'']"

text \<open>\<^verbatim>\<open>isinstance(v, int)\<close> holds for integers and for booleans, which count as 0 and
  1; \<^verbatim>\<open>isinstance(v, (int, float))\<close> for these and for floats.\<close>

definition is_int :: "pyval \<Rightarrow> bool" where
  "is_int v = (case v of PyInt _ \<Rightarrow> True | PyBool _ \<Rightarrow> True | _ \<Rightarrow> False)"

definition int_value :: "pyval \<Rightarrow> int" where
  "int_value v = (case v of PyInt n \<Rightarrow> n | PyBool b \<Rightarrow> (if b then 1 else 0) | _ \<Rightarrow> 0)"

definition is_number :: "pyval \<Rightarrow> bool" where
  "is_number v =
     (case v of PyInt _ \<Rightarrow> True | PyBool _ \<Rightarrow> True | PyFloat _ \<Rightarrow> True
      | PyNonFinite _ \<Rightarrow> True | _ \<Rightarrow> False)"

text \<open>\<^verbatim>\<open>0 <= v <= 1\<close> for a number; false for \<^verbatim>\<open>nan\<close> and the infinities.\<close>

definition in_unit_interval :: "pyval \<Rightarrow> bool" where
  "in_unit_interval v =
     (case v of
        PyInt n \<Rightarrow> 0 \<le> n \<and> n \<le> 1
      | PyBool _ \<Rightarrow> True
      | PyFloat x \<Rightarrow> 0 \<le> x \<and> x \<le> 1
      | _ \<Rightarrow> False)"

definition missing_fields :: "nat \<Rightarrow> dict \<Rightarrow> validation_message list" where
  "missing_fields i section =
     map (MissingField (i + 1)) (filter (\<lambda>field. map_of section field = None) required_fields)"

text \<open>The check of \<^verbatim>\<open>importance_rank\<close>: a message, or the rank to add to
  \<^verbatim>\<open>actual_ranks\<close>.\<close>

definition rank_check :: "nat \<Rightarrow> dict \<Rightarrow> validation_message list \<times> int list" where
  "rank_check i section =
     (case map_of section ''importance_rank'' of
        None \<Rightarrow> ([], [])
      | Some v \<Rightarrow> if \<not> is_int v then ([RankNotInteger (i + 1) v], []) else ([], [int_value v]))"

definition score_check :: "nat \<Rightarrow> dict \<Rightarrow> validation_message list" where
  "score_check i section =
     (case map_of section ''relevance_score'' of
        None \<Rightarrow> []
      | Some v \<Rightarrow>
          if \<not> is_number v then [ScoreNotNumber (i + 1) v]
          else if \<not> in_unit_interval v then [ScoreOutOfRange (i + 1) v]
          else [])"

definition page_check :: "nat \<Rightarrow> dict \<Rightarrow> validation_message list" where
  "page_check i section =
     (case map_of section ''page_number'' of
        None \<Rightarrow> []
      | Some v \<Rightarrow>
          if \<not> is_int v \<or> int_value v < 1 then [PageNotPositiveInteger (i + 1) v] else [])"

text \<open>
  \<^verbatim>\<open>key in section and (not section[key].strip() or len(section[key]) < n)\<close>: the value
  is not tested for being a string, and \<^verbatim>\<open>strip\<close> is a method of strings only.
\<close>

definition text_check :: "dict \<Rightarrow> string \<Rightarrow> nat \<Rightarrow> validation_message \<Rightarrow> error + validation_message list" where
  "text_check section key n message =
     (case map_of section key of
        None \<Rightarrow> Inr []
      | Some (PyStr s) \<Rightarrow> Inr (if strip s = [] \<or> length s < n then [message] else [])
      | Some _ \<Rightarrow> Inl (AttributeError ''strip''))"

fun validate_loop ::
  "nat \<Rightarrow> dict list \<Rightarrow> validation_message list \<Rightarrow> int list \<Rightarrow>
   error + validation_message list \<times> int list" where
  "validate_loop i [] errors actual_ranks = Inr (errors, actual_ranks)"
| "validate_loop i (section # rest) errors actual_ranks =
     (let errors1 = errors @ missing_fields i section;
          (rank_errors, ranks) = rank_check i section;
          errors2 = errors1 @ rank_errors @ score_check i section @ page_check i section
      in case text_check section ''title'' 2 (TitleTooShort (i + 1)) of
           Inl e \<Rightarrow> Inl e
         | Inr title_errors \<Rightarrow>
             (case text_check section ''content'' 10 (ContentTooShort (i + 1)) of
                Inl e \<Rightarrow> Inl e
              | Inr content_errors \<Rightarrow>
                  validate_loop (i + 1) rest (errors2 @ title_errors @ content_errors)
                    (actual_ranks @ ranks)))"

definition validate_sections :: "dict list \<Rightarrow> error + validation_message list" where
  "validate_sections sections =
     (case validate_loop 0 sections [] [] of
        Inl e \<Rightarrow> Inl e
      | Inr (errors, actual_ranks) \<Rightarrow>
          let expected_ranks = {1 .. int (length sections)}
          in Inr (if expected_ranks \<noteq> set actual_ranks
                  then errors @ [RanksNotSequential expected_ranks (set actual_ranks)]
                  else errors))"

text \<open>
  \<^verbatim>\<open>jsonschema.validate\<close> belongs to a library, not to this program. It is a parameter
  here: for an instance it returns, raises one \<^verbatim>\<open>ValidationError\<close> with a message, or
  raises another exception. \<^verbatim>\<open>validate_json_structure\<close> catches both.
\<close>

datatype validate_outcome = Valid | ValidationError string | OtherException string

definition validate_json_structure :: "(pyval \<Rightarrow> validate_outcome) \<Rightarrow> pyval \<Rightarrow> string list" where
  "validate_json_structure jsonschema_validate data =
     (case jsonschema_validate data of
        Valid \<Rightarrow> []
      | ValidationError message \<Rightarrow> [''JSON Schema validation error: '' @ message]
      | OtherException message \<Rightarrow> [''Validation error: '' @ message])"

text \<open>
  For the statements about the validator: a key that is absent or holds a string, the
  messages of all the checks of one section (those of a text check that does not
  raise), and the ranks one section contributes.
\<close>

definition text_or_absent :: "dict \<Rightarrow> string \<Rightarrow> bool" where
  "text_or_absent d key =
     (case map_of d key of None \<Rightarrow> True | Some (PyStr _) \<Rightarrow> True | Some _ \<Rightarrow> False)"

definition text_messages :: "dict \<Rightarrow> string \<Rightarrow> nat \<Rightarrow> validation_message \<Rightarrow> validation_message list" where
  "text_messages section key n message =
     (case text_check section key n message of Inr ms \<Rightarrow> ms | Inl _ \<Rightarrow> [])"

definition section_messages :: "nat \<Rightarrow> dict \<Rightarrow> validation_message list" where
  "section_messages i section =
     missing_fields i section @ fst (rank_check i section) @ score_check i section @
     page_check i section @ text_messages section ''title'' 2 (TitleTooShort (i + 1)) @
     text_messages section ''content'' 10 (ContentTooShort (i + 1))"

definition section_ranks :: "dict \<Rightarrow> int list" where
  "section_ranks section = snd (rank_check 0 section)"

section \<open>Processing a document\<close>

text \<open>
  \<^verbatim>\<open>process_document\<close> gets the text of the document from the PDF reader and the time
  stamp from the clock; both are parameters here, with the name of the file and the
  schema validator. What it prints is left out. The sections of the segmenter become
  the objects of a fresh store.
\<close>

definition section_dict :: "doc_section \<Rightarrow> dict" where
  "section_dict s =
     [(''title'', PyStr (title s)), (''content'', PyStr (content s)),
      (''page_number'', PyInt (page_number s))]"

definition process_document ::
  "(pyval \<Rightarrow> validate_outcome) \<Rightarrow> string \<Rightarrow> string \<Rightarrow> string \<Rightarrow> string \<Rightarrow> error + dict" where
  "process_document jsonschema_validate now pdf_name text pname =
     (if text = [] then Inr [(''error'', PyStr (''Could not extract text from '' @ pdf_name))]
      else
        let sections = map section_dict (extract_sections text)
        in case prioritize_sections sections [0 ..< length sections] pname of
             Inl e \<Rightarrow> Inl e
           | Inr (h, prioritized_sections) \<Rightarrow>
               let top_sections = take 10 prioritized_sections
               in (case validate_sections (map (\<lambda>r. h ! r) top_sections) of
                     Inl e \<Rightarrow> Inl e
                   | Inr section_errors \<Rightarrow>
                       let results =
                             [(''document'', PyStr pdf_name),
                              (''persona'', PyStr pname),
                              (''job_to_be_done'',
                               PyStr (''Prioritize document sections for '' @ pname @
                                      '' persona based on relevance and importance'')),
                              (''processing_timestamp'', PyStr now),
                              (''total_sections'', PyInt (int (length sections))),
                              (''sections'', PyList (map (\<lambda>r. PyDict (h ! r)) top_sections))];
                           json_errors =
                             validate_json_structure jsonschema_validate (PyDict results)
                       in Inr results))"

section \<open>Properties of the text normalizer\<close>

lemma ispunct_not_space: "ispunct c \<Longrightarrow> \<not> isspace c"
  by (auto simp: ispunct_def isspace_def code_point_def)

lemma isspace_blank: "isspace (CHR '' '')"
  by (simp add: isspace_def code_point_def)

lemma allowed_blank: "allowed_char (CHR '' '')"
  by (simp add: allowed_char_def isspace_blank)

lemma last_dropWhile: "dropWhile P xs \<noteq> [] \<Longrightarrow> last (dropWhile P xs) = last xs"
  by (induction xs) (auto split: if_splits)

lemma strip_decomp: "\<exists>a b. s = a @ strip s @ b"
proof -
  let ?d = "dropWhile isspace s"
  have "rev (rev ?d) = rev (takeWhile isspace (rev ?d) @ dropWhile isspace (rev ?d))"
    by (simp only: takeWhile_dropWhile_id)
  then have "?d = strip s @ rev (takeWhile isspace (rev ?d))"
    by (simp only: rev_rev_ident rev_append strip_def)
  moreover have "s = takeWhile isspace s @ ?d"
    by simp
  ultimately have "s = takeWhile isspace s @ strip s @ rev (takeWhile isspace (rev ?d))"
    by simp
  then show ?thesis by blast
qed

lemma stripped_strip: "stripped (strip s)"
proof (cases "strip s = []")
  case True
  then show ?thesis by (simp add: stripped_def)
next
  case False
  let ?d = "dropWhile isspace s"
  let ?e = "dropWhile isspace (rev ?d)"
  from False have e: "?e \<noteq> []" by (simp add: strip_def)
  then have d: "?d \<noteq> []" by (cases "?d = []") simp_all
  have "\<not> isspace (hd ?e)" using e by (rule hd_dropWhile)
  then have l: "\<not> isspace (last (strip s))"
    using e by (simp add: strip_def last_rev)
  have "last ?e = last (rev ?d)" using e by (rule last_dropWhile)
  then have "hd (strip s) = hd ?d"
    using e d by (simp add: strip_def hd_rev last_rev)
  moreover have "\<not> isspace (hd ?d)" using d by (rule hd_dropWhile)
  ultimately show ?thesis using l by (simp add: stripped_def)
qed

lemma strip_id: "stripped t \<Longrightarrow> strip t = t"
proof (cases t)
  case Nil
  then show ?thesis by (simp add: strip_def)
next
  case (Cons a as)
  assume "stripped t"
  with Cons have h: "\<not> isspace (hd t)" and l: "\<not> isspace (last t)" and n: "t \<noteq> []"
    by (auto simp: stripped_def)
  from h n have "dropWhile isspace t = t" by (cases t) auto
  moreover from l n have "dropWhile isspace (rev t) = rev t"
    by (cases "rev t") (auto simp: last_rev)
  ultimately show ?thesis by (simp add: strip_def)
qed

lemma strip_all_space: "\<forall>c \<in> set s. isspace c \<Longrightarrow> strip s = []"
proof -
  assume "\<forall>c \<in> set s. isspace c"
  then have d: "dropWhile isspace s = []" by (simp only: dropWhile_eq_Nil_conv)
  show ?thesis unfolding strip_def d by simp
qed

lemma set_strip: "set (strip s) \<subseteq> set s"
  using strip_decomp [of s] by (metis Un_iff set_append subsetI)

lemma successively_strip: "successively P s \<Longrightarrow> successively P (strip s)"
  using strip_decomp [of s] by (metis successively_append_iff)


subsection \<open>sub_runs\<close>

lemma set_sub_runs: "set (sub_runs C n repl s) \<subseteq> set s \<union> set repl"
proof (induction C n repl s rule: sub_runs.induct)
  case (1 C n repl)
  show ?case by simp
next
  case (2 C n repl c cs)
  show ?case
  proof (cases "C c")
    case True
    have "set (takeWhile C cs) \<subseteq> set cs"
      by (auto dest: set_takeWhileD)
    moreover have "set (dropWhile C cs) \<subseteq> set cs"
      by (auto dest: set_dropWhileD)
    ultimately show ?thesis using True 2(1) [OF True refl]
      by (auto simp: Let_def)
  next
    case False
    then show ?thesis using 2(2) by auto
  qed
qed

lemma sub_runs_class_replaced:
  "n \<le> 1 \<Longrightarrow> x \<in> set (sub_runs C n repl s) \<Longrightarrow> C x \<Longrightarrow> x \<in> set repl"
proof (induction C n repl s rule: sub_runs.induct)
  case (1 C n repl)
  then show ?case by simp
next
  case (2 C n repl c cs)
  show ?case
  proof (cases "C c")
    case True
    with 2 show ?thesis by (auto simp: Let_def split: if_splits)
  next
    case False
    with 2 show ?thesis by auto
  qed
qed

lemma sub_runs_no_run:
  "successively (\<lambda>a b. \<not> (C a \<and> C b)) s \<Longrightarrow> 2 \<le> n \<Longrightarrow> sub_runs C n repl s = s"
proof (induction C n repl s rule: sub_runs.induct)
  case (1 C n repl)
  show ?case by simp
next
  case (2 C n repl c cs)
  from 2(3) have tl: "successively (\<lambda>a b. \<not> (C a \<and> C b)) cs"
    by (cases cs) auto
  show ?case
  proof (cases "C c")
    case True
    with 2(3) have nx: "cs = [] \<or> \<not> C (hd cs)" by (cases cs) auto
    then have tw: "takeWhile C cs = []" and dw: "dropWhile C cs = cs"
      by (cases cs; simp)+
    from 2(1) [OF True refl] tl 2(4) dw have "sub_runs C n repl cs = cs" by simp
    with True tw dw 2(4) show ?thesis by (simp add: Let_def)
  next
    case False
    with 2(2) tl 2(4) show ?thesis by simp
  qed
qed

lemma sub_runs_single:
  "successively (\<lambda>a b. \<not> (C a \<and> C b)) s \<Longrightarrow> \<forall>x \<in> set s. C x \<longrightarrow> x = r \<Longrightarrow>
   sub_runs C 1 [r] s = s"
proof (induction C "1::nat" "[r]" s rule: sub_runs.induct)
  case (1 C)
  show ?case by simp
next
  case (2 C c cs)
  from 2(3) have tl: "successively (\<lambda>a b. \<not> (C a \<and> C b)) cs"
    by (cases cs) auto
  show ?case
  proof (cases "C c")
    case True
    with 2(3) have nx: "cs = [] \<or> \<not> C (hd cs)" by (cases cs) auto
    then have tw: "takeWhile C cs = []" and dw: "dropWhile C cs = cs"
      by (cases cs; simp)+
    from 2(1) [OF True refl] tl 2(4) dw have "sub_runs C 1 [r] cs = cs" by simp
    moreover from True 2(4) have "c = r" by simp
    ultimately show ?thesis using True tw dw by (simp add: Let_def)
  next
    case False
    with 2(2) tl 2(4) show ?thesis by simp
  qed
qed

lemma hd_sub_runs:
  "s \<noteq> [] \<Longrightarrow> \<not> C (hd s) \<Longrightarrow>
   sub_runs C n repl s \<noteq> [] \<and> hd (sub_runs C n repl s) = hd s"
  by (cases s) auto

lemma successively_const:
  "(\<And>a b. a \<in> set xs \<Longrightarrow> b \<in> set xs \<Longrightarrow> P a b) \<Longrightarrow> successively P xs"
  by (induction xs rule: induct_list012) auto

lemma sub_runs_no_adjacent:
  "n \<le> 2 \<Longrightarrow> successively (\<lambda>a b. \<not> (C a \<and> C b)) (sub_runs C n [r] s)"
proof (induction C n "[r]" s rule: sub_runs.induct)
  case (1 C n)
  show ?case by simp
next
  case (2 C n c cs)
  let ?rest = "dropWhile C cs"
  let ?out = "sub_runs C n [r] ?rest"
  show ?case
  proof (cases "C c")
    case True
    from 2(1) [OF True refl] 2(3)
    have ih: "successively (\<lambda>a b. \<not> (C a \<and> C b)) ?out" by simp
    have nx: "?out = [] \<or> \<not> C (hd ?out)"
    proof (cases "?rest = []")
      case True
      have "?out = []" by (simp only: True sub_runs.simps)
      then show ?thesis by (rule disjI1)
    next
      case False
      then have "\<not> C (hd ?rest)" by (rule hd_dropWhile)
      with False show ?thesis using hd_sub_runs [of ?rest C n "[r]"] by simp
    qed
    have "\<exists>x. (if n \<le> length (c # takeWhile C cs) then [r] else c # takeWhile C cs) = [x]"
      using 2(3) by (cases "takeWhile C cs") auto
    then obtain x where
      x: "(if n \<le> length (c # takeWhile C cs) then [r] else c # takeWhile C cs) = [x]" ..
    have "sub_runs C n [r] (c # cs) = x # ?out"
      using True x by (simp add: Let_def)
    moreover have "successively (\<lambda>a b. \<not> (C a \<and> C b)) (x # ?out)"
      using ih nx by (cases ?out) auto
    ultimately show ?thesis by simp
  next
    case False
    with 2(2) 2(3) show ?thesis
      by (cases "sub_runs C n [r] cs") auto
  qed
qed

lemma sub_runs_keeps_no_space_before_punct:
  "successively (\<lambda>a b. \<not> (isspace a \<and> ispunct b)) s \<Longrightarrow>
   successively (\<lambda>a b. \<not> (isspace a \<and> ispunct b)) (sub_runs isspace n '' '' s)"
proof (induction isspace n "'' ''" s rule: sub_runs.induct)
  case (1 n)
  show ?case by simp
next
  case (2 n c cs)
  let ?V = "\<lambda>a b. \<not> (isspace a \<and> ispunct b)"
  define run where "run = c # takeWhile isspace cs"
  define rest where "rest = dropWhile isspace cs"
  define out where "out = sub_runs isspace n '' '' rest"
  define X where "X = (if n \<le> length run then '' '' else run)"
  show ?case
  proof (cases "isspace c")
    case True
    have runsp: "\<forall>x \<in> set run. isspace x"
      using True by (auto simp: run_def dest: set_takeWhileD)
    have "c # cs = run @ rest" by (simp add: run_def rest_def)
    with 2(3) have sr: "successively ?V (run @ rest)" by simp
    then have rest: "successively ?V rest"
      by (simp only: successively_append_iff)
    from 2(1) [OF True refl] rest have ih: "successively ?V out"
      by (simp add: out_def rest_def run_def)
    have allsp: "\<forall>x \<in> set X. isspace x"
      using runsp by (simp add: X_def isspace_blank)
    have X: "successively ?V X"
    proof (rule successively_const)
      fix a b assume "a \<in> set X" "b \<in> set X"
      with allsp have "isspace b" by blast
      then show "\<not> (isspace a \<and> ispunct b)" using ispunct_not_space by blast
    qed
    have Xne: "X \<noteq> []" by (simp add: X_def run_def)
    have lastX: "isspace (last X)" using allsp Xne last_in_set by blast
    have join: "out = [] \<or> \<not> ispunct (hd out)"
    proof (cases "rest = []")
      case True
      have "out = []" by (simp only: out_def True sub_runs.simps)
      then show ?thesis by (rule disjI1)
    next
      case False
      then have ns: "\<not> isspace (hd rest)" unfolding rest_def by (rule hd_dropWhile)
      have "run \<noteq> []" by (simp add: run_def)
      then have "last run \<in> set run" by (rule last_in_set)
      with runsp have "isspace (last run)" by blast
      moreover from sr False \<open>run \<noteq> []\<close> have "?V (last run) (hd rest)"
        by (simp only: successively_append_iff) blast
      ultimately have "\<not> ispunct (hd rest)" by blast
      moreover have "hd out = hd rest"
        using hd_sub_runs [of rest isspace n "'' ''"] False ns by (simp add: out_def)
      ultimately show ?thesis by simp
    qed
    have "successively ?V (X @ out)"
      unfolding successively_append_iff using X ih join by blast
    moreover have "sub_runs isspace n '' '' (c # cs) = X @ out"
      using True by (simp add: Let_def X_def out_def run_def rest_def)
    ultimately show ?thesis by simp
  next
    case False
    from 2(3) have "successively ?V cs" by (cases cs) auto
    with 2(2) [OF False] have "successively ?V (sub_runs isspace n '' '' cs)" by simp
    with False show ?thesis
      by (cases "sub_runs isspace n '' '' cs") auto
  qed
qed

lemma sub_space_before_punct_end:
  assumes "isspace c" and "dropWhile isspace cs = []"
  shows "sub_space_before_punct (c # cs) = c # cs"
  by (simp only: sub_space_before_punct.simps assms list.case if_True)

lemma sub_space_before_punct_match:
  assumes "isspace c" and "dropWhile isspace cs = p # rest" and "ispunct p"
  shows "sub_space_before_punct (c # cs) = p # sub_space_before_punct rest"
  by (simp only: sub_space_before_punct.simps assms list.case if_True)

lemma sub_space_before_punct_other:
  assumes "isspace c" and "dropWhile isspace cs = p # rest" and "\<not> ispunct p"
  shows "sub_space_before_punct (c # cs) =
         c # takeWhile isspace cs @ p # sub_space_before_punct rest"
  by (simp only: sub_space_before_punct.simps assms list.case if_True if_False)

lemma set_sub_space_before_punct: "set (sub_space_before_punct s) \<subseteq> set s"
proof (induction s rule: sub_space_before_punct.induct)
  case 1
  show ?case by simp
next
  case (2 c cs)
  show ?case
  proof (cases "isspace c")
    case False
    with 2(3) show ?thesis by auto
  next
    case True
    show ?thesis
    proof (cases "dropWhile isspace cs")
      case Nil
      show ?thesis by (simp only: sub_space_before_punct_end [OF True Nil] subset_refl)
    next
      case (Cons p rest)
      have sub: "set (dropWhile isspace cs) \<subseteq> set cs" by (auto dest: set_dropWhileD)
      have tw: "set (takeWhile isspace cs) \<subseteq> set cs" by (auto dest: set_takeWhileD)
      show ?thesis
      proof (cases "ispunct p")
        case t: True
        from 2(1) [OF True Cons t] sub Cons show ?thesis
          by (simp only: sub_space_before_punct_match [OF True Cons t]) auto
      next
        case f: False
        from 2(2) [OF True Cons f] sub tw Cons show ?thesis
          by (simp only: sub_space_before_punct_other [OF True Cons f]) auto
      qed
    qed
  qed
qed

lemma sub_space_before_punct_ok:
  "successively (\<lambda>a b. \<not> (isspace a \<and> ispunct b)) (sub_space_before_punct s)"
proof (induction s rule: sub_space_before_punct.induct)
  case 1
  show ?case by simp
next
  case (2 c cs)
  let ?V = "\<lambda>a b. \<not> (isspace a \<and> ispunct b)"
  show ?case
  proof (cases "isspace c")
    case False
    with 2(3) show ?thesis
      by (cases "sub_space_before_punct cs") auto
  next
    case True
    show ?thesis
    proof (cases "dropWhile isspace cs")
      case Nil
      then have "\<forall>x \<in> set cs. isspace x" by (simp only: dropWhile_eq_Nil_conv)
      with True have "\<forall>x \<in> set (c # cs). isspace x" by simp
      then have "successively ?V (c # cs)"
        by (intro successively_const) (blast dest: ispunct_not_space)
      then show ?thesis by (simp only: sub_space_before_punct_end [OF True Nil])
    next
      case (Cons p rest)
      show ?thesis
      proof (cases "ispunct p")
        case t: True
        then have "\<not> isspace p" by (rule ispunct_not_space)
        with 2(1) [OF True Cons t]
        have "successively ?V (p # sub_space_before_punct rest)"
          by (cases "sub_space_before_punct rest") auto
        then show ?thesis by (simp only: sub_space_before_punct_match [OF True Cons t])
      next
        case f: False
        define run where "run = c # takeWhile isspace cs"
        have "dropWhile isspace cs \<noteq> []" using Cons by simp
        then have "\<not> isspace (hd (dropWhile isspace cs))" by (rule hd_dropWhile)
        with Cons have nsp: "\<not> isspace p" by simp
        with 2(2) [OF True Cons f]
        have tail: "successively ?V (p # sub_space_before_punct rest)"
          by (cases "sub_space_before_punct rest") auto
        have "\<forall>x \<in> set run. isspace x"
          using True by (auto simp: run_def dest: set_takeWhileD)
        then have "successively ?V run"
          by (intro successively_const) (blast dest: ispunct_not_space)
        with tail f have "successively ?V (run @ p # sub_space_before_punct rest)"
          by (simp only: successively_append_iff) simp
        then show ?thesis
          by (simp only: sub_space_before_punct_other [OF True Cons f] run_def append_Cons)
      qed
    qed
  qed
qed

lemma sub_space_before_punct_id:
  "successively (\<lambda>a b. \<not> (isspace a \<and> ispunct b)) s \<Longrightarrow> sub_space_before_punct s = s"
proof (induction s rule: sub_space_before_punct.induct)
  case 1
  show ?case by simp
next
  case (2 c cs)
  let ?V = "\<lambda>a b. \<not> (isspace a \<and> ispunct b)"
  show ?case
  proof (cases "isspace c")
    case False
    from 2(4) have "successively ?V cs" by (cases cs) auto
    with 2(3) [OF False] False show ?thesis by simp
  next
    case True
    show ?thesis
    proof (cases "dropWhile isspace cs")
      case Nil
      show ?thesis by (rule sub_space_before_punct_end [OF True Nil])
    next
      case (Cons p rest)
      define run where "run = c # takeWhile isspace cs"
      have runsp: "\<forall>x \<in> set run. isspace x"
        using True by (auto simp: run_def dest: set_takeWhileD)
      have ne: "run \<noteq> []" by (simp add: run_def)
      then have "last run \<in> set run" by (rule last_in_set)
      with runsp have lsp: "isspace (last run)" by blast
      have split: "c # cs = run @ p # rest"
        using Cons by (simp add: run_def) (metis takeWhile_dropWhile_id)
      with 2(4) have sr: "successively ?V (run @ p # rest)" by simp
      then have "?V (last run) p" using ne
        by (simp only: successively_append_iff) simp
      with lsp have f: "\<not> ispunct p" by blast
      from sr have "successively ?V (p # rest)"
        by (simp only: successively_append_iff)
      then have "successively ?V rest" by (cases rest) auto
      with 2(2) [OF True Cons f] have "sub_space_before_punct rest = rest" .
      then have "sub_space_before_punct (c # cs) = run @ p # rest"
        by (simp only: sub_space_before_punct_other [OF True Cons f] run_def append_Cons)
      with split show ?thesis by simp
    qed
  qed
qed

lemma good_char_repl:
  "good_char (CHR '' '')" "good_char (CHR ''.'')" "good_char (CHR ''!'')" "good_char (CHR ''?'')"
  by (simp_all add: good_char_def allowed_char_def isspace_def code_point_def)

lemma good_sub_runs:
  "\<forall>c \<in> set s. good_char c \<Longrightarrow> good_char r \<Longrightarrow> \<forall>c \<in> set (sub_runs C n [r] s). good_char c"
  using set_sub_runs [of C n "[r]" s] by auto

lemma clean_text_normal_form: "normal_form (clean_text s)"
proof (cases "s = []")
  case True
  then show ?thesis
    by (simp add: clean_text_def normal_form_def stripped_def)
next
  case False
  define t1 where "t1 = sub_runs isspace 1 '' '' (strip s)"
  define t2 where "t2 = filter allowed_char t1"
  define t3 where "t3 = sub_runs (\<lambda>c. c = CHR ''.'') 2 ''.'' t2"
  define t4 where "t4 = sub_runs (\<lambda>c. c = CHR ''!'') 2 ''!'' t3"
  define t5 where "t5 = sub_runs (\<lambda>c. c = CHR ''?'') 2 ''?'' t4"
  define t6 where "t6 = sub_space_before_punct t5"
  define t7 where "t7 = sub_runs isspace 2 '' '' t6"
  have res: "clean_text s = strip t7"
    using False by (simp add: clean_text_def Let_def t1_def t2_def t3_def t4_def t5_def t6_def t7_def)
  have "\<forall>c \<in> set t1. isspace c \<longrightarrow> c = CHR '' ''"
    using sub_runs_class_replaced [of 1 _ isspace "'' ''" "strip s"] by (auto simp: t1_def)
  then have g2: "\<forall>c \<in> set t2. good_char c"
    by (auto simp: t2_def good_char_def)
  then have g3: "\<forall>c \<in> set t3. good_char c"
    unfolding t3_def by (rule good_sub_runs) (rule good_char_repl)
  then have g4: "\<forall>c \<in> set t4. good_char c"
    unfolding t4_def by (rule good_sub_runs) (rule good_char_repl)
  then have g5: "\<forall>c \<in> set t5. good_char c"
    unfolding t5_def by (rule good_sub_runs) (rule good_char_repl)
  then have g6: "\<forall>c \<in> set t6. good_char c"
    using set_sub_space_before_punct [of t5] by (auto simp: t6_def)
  then have g7: "\<forall>c \<in> set t7. good_char c"
    unfolding t7_def by (rule good_sub_runs) (rule good_char_repl)
  then have g: "\<forall>c \<in> set (strip t7). good_char c"
    using set_strip [of t7] by auto
  have "successively (\<lambda>a b. \<not> (isspace a \<and> ispunct b)) t6"
    unfolding t6_def by (rule sub_space_before_punct_ok)
  then have "successively (\<lambda>a b. \<not> (isspace a \<and> ispunct b)) t7"
    unfolding t7_def by (rule sub_runs_keeps_no_space_before_punct)
  then have v: "successively (\<lambda>a b. \<not> (isspace a \<and> ispunct b)) (strip t7)"
    by (rule successively_strip)
  have "successively (\<lambda>a b. \<not> (isspace a \<and> isspace b)) t7"
    unfolding t7_def by (rule sub_runs_no_adjacent) simp
  then have d: "successively (\<lambda>a b. \<not> (isspace a \<and> isspace b)) (strip t7)"
    by (rule successively_strip)
  show ?thesis
    unfolding res normal_form_def using stripped_strip g d v by blast
qed

lemma no_double_successively:
  "\<not> sublist [c, c] t \<Longrightarrow> successively (\<lambda>a b. \<not> (a = c \<and> b = c)) t"
proof (induction t rule: induct_list012)
  case 1
  show ?case by simp
next
  case (2 x)
  show ?case by simp
next
  case (3 x y zs)
  from 3(3) have "\<not> sublist [c, c] (y # zs)" and "\<not> prefix [c, c] (x # y # zs)"
    by (simp_all add: sublist_Cons_right)
  with 3(2) show ?case by auto
qed

lemma clean_text_fixed_point:
  assumes nf: "normal_form t"
    and dots: "\<not> sublist ''..'' t" and bangs: "\<not> sublist ''!!'' t"
    and marks: "\<not> sublist ''??'' t"
  shows "clean_text t = t"
proof (cases "t = []")
  case True
  then show ?thesis by (simp add: clean_text_def)
next
  case False
  from nf have s: "strip t = t" by (simp add: normal_form_def strip_id)
  from nf have d: "successively (\<lambda>a b. \<not> (isspace a \<and> isspace b)) t"
    and v: "successively (\<lambda>a b. \<not> (isspace a \<and> ispunct b)) t"
    and g: "\<forall>c \<in> set t. good_char c"
    by (simp_all add: normal_form_def)
  from g have "\<forall>x \<in> set t. isspace x \<longrightarrow> x = CHR '' ''"
    by (simp add: good_char_def)
  with d have t1: "sub_runs isspace 1 '' '' t = t"
    by (rule sub_runs_single)
  from g have t2: "filter allowed_char t = t"
    by (simp add: good_char_def)
  have t3: "sub_runs (\<lambda>c. c = CHR ''.'') 2 ''.'' t = t"
    using no_double_successively [OF dots] by (rule sub_runs_no_run) simp
  have t4: "sub_runs (\<lambda>c. c = CHR ''!'') 2 ''!'' t = t"
    using no_double_successively [OF bangs] by (rule sub_runs_no_run) simp
  have t5: "sub_runs (\<lambda>c. c = CHR ''?'') 2 ''?'' t = t"
    using no_double_successively [OF marks] by (rule sub_runs_no_run) simp
  from v have t6: "sub_space_before_punct t = t"
    by (rule sub_space_before_punct_id)
  from d have t7: "sub_runs isspace 2 '' '' t = t"
    by (rule sub_runs_no_run) simp
  show ?thesis
    unfolding clean_text_def Let_def s t1 t2 t3 t4 t5 t6 t7 using False by simp
qed

lemma clean_text_blank: "\<forall>c \<in> set s. isspace c \<Longrightarrow> clean_text s = []"
proof -
  assume "\<forall>c \<in> set s. isspace c"
  then have st: "strip s = []" by (rule strip_all_space)
  have "strip [] = []" by (simp add: strip_def)
  then show ?thesis unfolding clean_text_def Let_def st by simp
qed

text \<open>
  Claim C3, as amended. The normalizer returns the empty string on the empty string and
  on a string of white space only. Normalizing a second time changes nothing whenever
  the first result holds none of \<^verbatim>\<open>..\<close>, \<^verbatim>\<open>!!\<close> and \<^verbatim>\<open>??\<close>. (Such a
  pair is left behind when the white space between two punctuation characters is
  removed, after the runs of punctuation have been collapsed.)
\<close>

theorem clean_text_idempotent_amended:
  "clean_text [] = [] \<and>
   ((\<forall>c \<in> set s. isspace c) \<longrightarrow> clean_text s = []) \<and>
   (\<not> sublist ''..'' (clean_text s) \<and> \<not> sublist ''!!'' (clean_text s) \<and>
    \<not> sublist ''??'' (clean_text s) \<longrightarrow> clean_text (clean_text s) = clean_text s)"
  using clean_text_blank [of s] clean_text_fixed_point [OF clean_text_normal_form, of s]
  by (simp add: clean_text_def)

theorem clean_text_idempotent_witness:
  "list_all isspace ''  '' \<and> clean_text ''  '' = [] \<and>
   \<not> sublist ''..'' (clean_text ''Hello  world !'') \<and>
   \<not> sublist ''!!'' (clean_text ''Hello  world !'') \<and>
   \<not> sublist ''??'' (clean_text ''Hello  world !'') \<and>
   clean_text (clean_text ''Hello  world !'') = clean_text ''Hello  world !''"
proof -
  have blank: "\<forall>c \<in> set ''  ''. isspace c"
    by (simp add: isspace_def code_point_def)
  have dots: "\<not> sublist ''..'' (clean_text ''Hello  world !'')"
    by code_simp
  have bangs: "\<not> sublist ''!!'' (clean_text ''Hello  world !'')"
    by code_simp
  have marks: "\<not> sublist ''??'' (clean_text ''Hello  world !'')"
    by code_simp
  from blank have "list_all isspace ''  ''"
    by (simp only: list_all_iff)
  then show ?thesis
    using clean_text_idempotent_amended [of "''  ''"]
      clean_text_idempotent_amended [of "''Hello  world !''"] blank dots bangs marks
    by blast
qed

text \<open>The claim as stated fails: \<^verbatim>\<open>"a. ."\<close> is normalized to \<^verbatim>\<open>"a.."\<close>, and that
  to \<^verbatim>\<open>"a."\<close>.\<close>

theorem clean_text_idempotent_counterexample:
  "clean_text ''a. .'' = ''a..'' \<and> clean_text (clean_text ''a. .'') = ''a.'' \<and>
   clean_text (clean_text ''a. .'') \<noteq> clean_text ''a. .''"
  by code_simp

section \<open>Properties of the float model\<close>

lemma rne_cases: "rne x = \<lfloor>x\<rfloor> \<or> rne x = \<lfloor>x\<rfloor> + 1"
  by (simp add: rne_def Let_def)

lemma rne_of_int: "rne (of_int n) = n"
  by (simp add: rne_def Let_def)

lemma rne_mono: "x \<le> y \<Longrightarrow> rne x \<le> rne y"
proof -
  assume xy: "x \<le> y"
  then have fl: "\<lfloor>x\<rfloor> \<le> \<lfloor>y\<rfloor>" by (rule floor_mono)
  show ?thesis
  proof (cases "\<lfloor>x\<rfloor> = \<lfloor>y\<rfloor>")
    case True
    with xy have "x - of_int \<lfloor>x\<rfloor> \<le> y - of_int \<lfloor>y\<rfloor>" by simp
    with True show ?thesis by (auto simp: rne_def Let_def)
  next
    case False
    with fl have "\<lfloor>x\<rfloor> + 1 \<le> \<lfloor>y\<rfloor>" by simp
    moreover have "rne x \<le> \<lfloor>x\<rfloor> + 1" using rne_cases [of x] by auto
    moreover have "\<lfloor>y\<rfloor> \<le> rne y" using rne_cases [of y] by auto
    ultimately show ?thesis by linarith
  qed
qed

lemma rne_nonneg: "0 \<le> x \<Longrightarrow> 0 \<le> rne x"
  using rne_mono [of 0 x] rne_of_int [of 0] by simp

lemma rne_ge: "of_int a \<le> x \<Longrightarrow> a \<le> rne x"
  using rne_mono [of "of_int a" x] by (simp add: rne_of_int)

lemma rne_le: "x \<le> of_int b \<Longrightarrow> rne x \<le> b"
  using rne_mono [of x "of_int b"] by (simp add: rne_of_int)

lemma power_int_bitlen_le:
  assumes "0 < p"
  shows "power_int 2 (bitlen p - 1) \<le> (of_int p :: rat)"
proof -
  from assms have b: "0 < bitlen p"
    by (meson bitlen_eq_zero_iff bitlen_nonneg linorder_not_le order_le_imp_less_or_eq)
  then have "power_int (2::rat) (bitlen p - 1) = of_int (2 ^ nat (bitlen p - 1))"
    by (simp add: power_int_def)
  moreover from bitlen_bounds [OF assms] have "(2::int) ^ nat (bitlen p - 1) \<le> p" by simp
  ultimately show ?thesis by (simp only: of_int_le_iff)
qed

lemma power_int_bitlen_gt:
  assumes "0 < p"
  shows "(of_int p :: rat) < power_int 2 (bitlen p)"
proof -
  have "power_int (2::rat) (bitlen p) = of_int (2 ^ nat (bitlen p))"
    by (simp add: power_int_def bitlen_nonneg)
  moreover from bitlen_bounds [OF assms] have "p < (2::int) ^ nat (bitlen p)" by simp
  ultimately show ?thesis by (simp only: of_int_less_iff)
qed

lemma ilog2_bounds:
  assumes "0 < x"
  shows "power_int 2 (ilog2 x) \<le> x \<and> x < power_int 2 (ilog2 x + 1)"
proof -
  obtain p q where pq: "quotient_of x = (p, q)" by (cases "quotient_of x")
  then have q: "0 < q" by (rule quotient_of_denom_pos)
  from pq have x: "x = of_int p / of_int q" by (rule quotient_of_div)
  with assms q have p: "0 < p" by (simp add: zero_less_divide_iff)
  define bp where "bp = bitlen p"
  define bq where "bq = bitlen q"
  have P1: "power_int 2 (bp - 1) \<le> (of_int p :: rat)"
    unfolding bp_def using p by (rule power_int_bitlen_le)
  have P2: "(of_int p :: rat) < power_int 2 bp"
    unfolding bp_def using p by (rule power_int_bitlen_gt)
  have Q1: "power_int 2 (bq - 1) \<le> (of_int q :: rat)"
    unfolding bq_def using q by (rule power_int_bitlen_le)
  have Q2: "(of_int q :: rat) < power_int 2 bq"
    unfolding bq_def using q by (rule power_int_bitlen_gt)
  have pos: "\<And>k. (0::rat) < power_int 2 k" by simp
  have "of_int p / of_int q < power_int (2::rat) bp / power_int 2 (bq - 1)"
    using p P2 pos Q1 by (intro frac_less) simp_all
  also have "power_int (2::rat) bp / power_int 2 (bq - 1) = power_int 2 (bp - bq + 1)"
    by (simp add: power_int_diff [symmetric] algebra_simps)
  finally have up: "x < power_int 2 (bp - bq + 1)" by (simp add: x)
  have "power_int (2::rat) (bp - 1) / power_int 2 bq < of_int p / of_int q"
    using pos P1 q Q2 by (intro frac_less2) simp_all
  moreover have "power_int (2::rat) (bp - 1) / power_int 2 bq = power_int 2 (bp - bq - 1)"
    by (simp add: power_int_diff [symmetric] algebra_simps)
  ultimately have lo: "power_int 2 (bp - bq - 1) < x" by (simp add: x)
  show ?thesis
  proof (cases "power_int 2 (bp - bq) \<le> x")
    case True
    then have "ilog2 x = bp - bq" by (simp add: ilog2_def pq bp_def bq_def)
    with True up show ?thesis by simp
  next
    case False
    then have "ilog2 x = bp - bq - 1" by (simp add: ilog2_def pq bp_def bq_def)
    with False lo show ?thesis by simp
  qed
qed

lemma fl_pos:
  assumes "0 < x"
  shows "fl x = of_int (rne (x / power_int 2 (max (ilog2 x) (- 1022) - 52))) *
                power_int 2 (max (ilog2 x) (- 1022) - 52)"
  using assms by (simp add: fl_def Let_def)

lemma fl_nonneg: "0 \<le> x \<Longrightarrow> 0 \<le> fl x"
proof (cases "x = 0")
  case True
  then show ?thesis by (simp add: fl_def)
next
  case False
  assume "0 \<le> x"
  with False have x: "0 < x" by simp
  have "0 \<le> rne (x / power_int 2 (max (ilog2 x) (- 1022) - 52))"
    using x by (intro rne_nonneg) simp
  then show ?thesis by (simp add: fl_pos [OF x])
qed

lemma ilog2_mono:
  assumes "0 < x" and "x \<le> y"
  shows "ilog2 x \<le> ilog2 y"
proof -
  from assms have y: "0 < y" by simp
  from ilog2_bounds [OF assms(1)] ilog2_bounds [OF y] assms(2)
  have lt: "power_int (2::rat) (ilog2 x) < power_int 2 (ilog2 y + 1)" by linarith
  show ?thesis
  proof (rule ccontr)
    assume "\<not> ilog2 x \<le> ilog2 y"
    then have "ilog2 y + 1 \<le> ilog2 x" by simp
    then have "power_int (2::rat) (ilog2 y + 1) \<le> power_int 2 (ilog2 x)"
      by (rule power_int_increasing) simp
    with lt show False by simp
  qed
qed

lemma fl_mono:
  assumes "0 \<le> x" and "x \<le> y"
  shows "fl x \<le> fl y"
proof (cases "x = 0")
  case True
  with assms(2) have "0 \<le> fl y" by (intro fl_nonneg) simp
  with True show ?thesis by (simp add: fl_def)
next
  case False
  with assms have x: "0 < x" and y: "0 < y" by simp_all
  define ex where "ex = max (ilog2 x) (- 1022)"
  define ey where "ey = max (ilog2 y) (- 1022)"
  define ux :: rat where "ux = power_int 2 (ex - 52)"
  define uy :: rat where "uy = power_int 2 (ey - 52)"
  have ux: "0 < ux" and uy: "0 < uy" by (simp_all add: ux_def uy_def)
  have fx: "fl x = of_int (rne (x / ux)) * ux"
    unfolding ux_def ex_def using x by (rule fl_pos)
  have fy: "fl y = of_int (rne (y / uy)) * uy"
    unfolding uy_def ey_def using y by (rule fl_pos)
  have exy: "ex \<le> ey"
    using ilog2_mono [OF x assms(2)] by (simp add: ex_def ey_def)
  show ?thesis
  proof (cases "ex = ey")
    case True
    then have u: "ux = uy" by (simp add: ux_def uy_def)
    from assms(2) uy have "x / uy \<le> y / uy" by (simp add: divide_right_mono)
    then have "rne (x / uy) \<le> rne (y / uy)" by (rule rne_mono)
    then have "(of_int (rne (x / uy)) :: rat) \<le> of_int (rne (y / uy))" by simp
    with uy have "of_int (rne (x / uy)) * uy \<le> of_int (rne (y / uy)) * uy"
      by (simp add: mult_right_mono)
    with fx fy u show ?thesis by simp
  next
    case False
    with exy have lt: "ex + 1 \<le> ey" by simp
    then have ey: "ey = ilog2 y" by (simp add: ex_def ey_def)
    have "x < power_int 2 (ilog2 x + 1)" using ilog2_bounds [OF x] by simp
    also have "\<dots> \<le> power_int 2 (ex + 1)"
      by (rule power_int_increasing) (simp_all add: ex_def)
    finally have xb: "x < power_int 2 (ex + 1)" .
    have "x / ux < power_int 2 (ex + 1) / ux"
      using xb ux by (simp add: divide_strict_right_mono)
    also have "power_int 2 (ex + 1) / ux = power_int 2 53"
      by (simp add: ux_def power_int_diff [symmetric])
    also have "power_int (2::rat) 53 = of_int (2 ^ 53)" by simp
    finally have "rne (x / ux) \<le> 2 ^ 53" by (intro rne_le) simp
    then have "(of_int (rne (x / ux)) :: rat) \<le> of_int (2 ^ 53)"
      by (simp only: of_int_le_iff)
    with ux have "of_int (rne (x / ux)) * ux \<le> of_int (2 ^ 53) * ux"
      by (simp add: mult_right_mono)
    also have "of_int (2 ^ 53) * ux = power_int 2 53 * ux" by simp
    also have "\<dots> = power_int 2 (53 + (ex - 52))"
      unfolding ux_def by (rule power_int_add [symmetric]) simp
    also have "53 + (ex - 52) = ex + 1" by simp
    finally have left: "fl x \<le> power_int 2 (ex + 1)" by (simp add: fx)
    have "power_int 2 ey \<le> y" using ilog2_bounds [OF y] by (simp add: ey)
    then have "power_int 2 ey / uy \<le> y / uy"
      using uy by (simp add: divide_right_mono)
    moreover have "power_int 2 ey / uy = power_int 2 52"
      by (simp add: uy_def power_int_diff [symmetric])
    moreover have "power_int (2::rat) 52 = of_int (2 ^ 52)" by simp
    ultimately have "2 ^ 52 \<le> rne (y / uy)" by (intro rne_ge) simp
    then have "(of_int (2 ^ 52) :: rat) \<le> of_int (rne (y / uy))"
      by (simp only: of_int_le_iff)
    with uy have "of_int (2 ^ 52) * uy \<le> of_int (rne (y / uy)) * uy"
      by (simp add: mult_right_mono)
    moreover have "of_int (2 ^ 52) * uy = power_int 2 52 * uy" by simp
    moreover have "power_int 2 52 * uy = power_int 2 (52 + (ey - 52))"
      unfolding uy_def by (rule power_int_add [symmetric]) simp
    moreover have "52 + (ey - 52) = ey" by simp
    ultimately have right: "power_int 2 ey \<le> fl y" by (simp add: fy)
    have "power_int (2::rat) (ex + 1) \<le> power_int 2 ey"
      using lt by (rule power_int_increasing) simp
    with left right show ?thesis by linarith
  qed
qed

lemma py_round2_nonneg: "0 \<le> x \<Longrightarrow> 0 \<le> py_round2 x"
  unfolding py_round2_def by (intro fl_nonneg divide_nonneg_nonneg) (simp_all add: rne_nonneg)

lemma py_round2_mono:
  assumes "0 \<le> x" and "x \<le> y"
  shows "py_round2 x \<le> py_round2 y"
proof -
  from assms have "rne (x * 100) \<le> rne (y * 100)" by (intro rne_mono) simp
  then have "(of_int (rne (x * 100)) :: rat) / 100 \<le> of_int (rne (y * 100)) / 100"
    by simp
  moreover have "(0::rat) \<le> of_int (rne (x * 100)) / 100"
    using assms(1) by (simp add: rne_nonneg)
  ultimately show ?thesis unfolding py_round2_def by (intro fl_mono)
qed

section \<open>Properties of the persona scorer\<close>

lemma fl_literals_nonneg: "0 \<le> fl (3 / 10)" "0 \<le> fl (1 / 10)" "0 \<le> fl (2 / 10)"
  by (rule fl_nonneg, simp)+

lemma fadd_nonneg: "0 \<le> x \<Longrightarrow> 0 \<le> y \<Longrightarrow> 0 \<le> fadd x y"
  unfolding fadd_def by (rule fl_nonneg) simp

lemma fmul_nonneg: "0 \<le> x \<Longrightarrow> 0 \<le> y \<Longrightarrow> 0 \<le> fmul x y"
  unfolding fmul_def by (rule fl_nonneg) simp

lemma title_score_loop_nonneg:
  "0 \<le> acc \<Longrightarrow> 0 \<le> title_score_loop ks title_lower acc"
  by (induction ks arbitrary: acc) (simp_all add: fadd_nonneg fl_literals_nonneg)

lemma content_score_loop_nonneg:
  "0 \<le> acc \<Longrightarrow> 0 \<le> content_score_loop ks content_lower acc"
proof (induction ks arbitrary: acc)
  case Nil
  then show ?case by simp
next
  case (Cons k ks)
  have "0 \<le> fmul (int_to_float (int (str_count content_lower (str_lower k)))) (fl (1 / 10))"
    by (intro fmul_nonneg fl_literals_nonneg) (simp add: int_to_float_def fl_nonneg)
  then have "0 \<le> fadd acc
      (min (fmul (int_to_float (int (str_count content_lower (str_lower k)))) (fl (1 / 10)))
         (1 / 2))"
    using Cons.prems by (intro fadd_nonneg) simp_all
  then show ?case by (simp add: Let_def Cons.IH)
qed

lemma priority_bonus_loop_eq:
  "priority_bonus_loop ps title_lower =
     (if \<exists>p \<in> set ps. sublist (str_lower p) title_lower then fl (2 / 10) else 0)"
  by (induction ps) simp_all

lemma priority_bonus_loop_nonneg: "0 \<le> priority_bonus_loop ps title_lower"
  by (induction ps) (simp_all add: fl_nonneg)

lemma lower_item_str: "map_of d key = Some (PyStr s) \<Longrightarrow> lower_item d key = Inr (str_lower s)"
  by (simp add: lower_item_def)

lemma calculate_section_score_known:
  assumes "map_of personas pname = Some cfg"
    and "map_of section ''title'' = Some (PyStr t)"
    and "map_of section ''content'' = Some (PyStr c)"
  shows "calculate_section_score section pname =
     Inr (min (fadd (fadd (title_score_loop (keywords cfg) (str_lower t) 0)
                          (content_score_loop (keywords cfg) (str_lower c) 0))
                    (priority_bonus_loop (priority_sections cfg) (str_lower t))) 1)"
  using assms by (simp add: calculate_section_score_def lower_item_str)

lemma calculate_section_score_unknown:
  "map_of personas pname = None \<Longrightarrow> calculate_section_score section pname = Inr 0"
  by (simp add: calculate_section_score_def)

lemma personas_keys:
  "map_of personas pname = None \<longleftrightarrow>
   pname \<notin> {''executive'', ''technical'', ''marketing'', ''investor''}"
  by (simp add: personas_def)

lemma calculate_section_score_range:
  assumes "map_of section ''title'' = Some (PyStr t)"
    and "map_of section ''content'' = Some (PyStr c)"
  shows "\<exists>x. calculate_section_score section pname = Inr x \<and> 0 \<le> x \<and> x \<le> 1"
proof (cases "map_of personas pname")
  case None
  then show ?thesis by (simp add: calculate_section_score_unknown)
next
  case (Some cfg)
  have "0 \<le> fadd (fadd (title_score_loop (keywords cfg) (str_lower t) 0)
                       (content_score_loop (keywords cfg) (str_lower c) 0))
                 (priority_bonus_loop (priority_sections cfg) (str_lower t))"
    by (intro fadd_nonneg title_score_loop_nonneg content_score_loop_nonneg
        priority_bonus_loop_nonneg) simp_all
  then show ?thesis
    by (simp add: calculate_section_score_known [OF Some assms])
qed

lemma str_item_value: "str_item d key \<Longrightarrow> \<exists>s. map_of d key = Some (PyStr s)"
  by (auto simp: str_item_def split: option.splits pyval.splits)

lemma scorable_score:
  assumes "scorable d"
  shows "\<exists>x. calculate_section_score d pname = Inr x \<and> 0 \<le> x \<and> x \<le> 1"
proof -
  from assms obtain t c where "map_of d ''title'' = Some (PyStr t)"
    and "map_of d ''content'' = Some (PyStr c)"
    using str_item_value unfolding scorable_def by blast
  then show ?thesis by (rule calculate_section_score_range)
qed

lemma scorable_score_of: "scorable d \<Longrightarrow> 0 \<le> score_of d pname"
  using scorable_score [of d pname] by (auto simp: score_of_def)

text \<open>
  Claim C4. For a section whose title and content are strings and for every persona
  name (the four configured ones, and any other), the scorer returns a float between
  0 and 1.
\<close>

theorem calculate_section_score_bounded:
  assumes "map_of section ''title'' = Some (PyStr t)"
    and "map_of section ''content'' = Some (PyStr c)"
  shows "\<exists>x. calculate_section_score section pname = Inr x \<and> 0 \<le> x \<and> x \<le> 1"
  using assms by (rule calculate_section_score_range)

theorem calculate_section_score_bounded_witness:
  "\<exists>x. calculate_section_score
          [(''title'', PyStr ''Market Analysis''), (''content'', PyStr ''growth and revenue''),
           (''page_number'', PyInt 1)] ''executive'' = Inr x \<and> 0 \<le> x \<and> x \<le> 1"
  by (rule calculate_section_score_bounded) simp_all

lemma priority_bonus_loop_stops:
  "sublist (str_lower p) title_lower \<Longrightarrow>
   priority_bonus_loop (xs @ p # ys) title_lower = priority_bonus_loop (xs @ [p]) title_lower"
  by (induction xs) simp_all

text \<open>
  Claim C5. The priority bonus is the float 0.2 if some priority phrase of the persona,
  in lower case, is a substring of the lower-cased title, and 0.0 otherwise; it enters
  the score once. The phrases behind the first matching one are not looked at: the
  bonus is the same whatever follows it in the list.
\<close>

theorem priority_bonus_first_match_only:
  assumes "map_of personas pname = Some cfg"
    and "map_of section ''title'' = Some (PyStr t)"
    and "map_of section ''content'' = Some (PyStr c)"
  shows "priority_bonus_loop (priority_sections cfg) (str_lower t) =
           (if \<exists>p \<in> set (priority_sections cfg). sublist (str_lower p) (str_lower t)
            then fl (2 / 10) else 0) \<and>
         calculate_section_score section pname =
           Inr (min (fadd (fadd (title_score_loop (keywords cfg) (str_lower t) 0)
                                (content_score_loop (keywords cfg) (str_lower c) 0))
                          (priority_bonus_loop (priority_sections cfg) (str_lower t))) 1) \<and>
         (\<forall>xs p ys. sublist (str_lower p) (str_lower t) \<longrightarrow>
            priority_bonus_loop (xs @ p # ys) (str_lower t) = fl (2 / 10) \<and>
            priority_bonus_loop (xs @ p # ys) (str_lower t) =
              priority_bonus_loop (xs @ [p]) (str_lower t))"
proof (intro conjI allI impI)
  show "priority_bonus_loop (priority_sections cfg) (str_lower t) =
          (if \<exists>p \<in> set (priority_sections cfg). sublist (str_lower p) (str_lower t)
           then fl (2 / 10) else 0)"
    by (rule priority_bonus_loop_eq)
next
  show "calculate_section_score section pname =
          Inr (min (fadd (fadd (title_score_loop (keywords cfg) (str_lower t) 0)
                               (content_score_loop (keywords cfg) (str_lower c) 0))
                         (priority_bonus_loop (priority_sections cfg) (str_lower t))) 1)"
    using assms by (rule calculate_section_score_known)
next
  fix xs p ys
  assume "sublist (str_lower p) (str_lower t)"
  then show "priority_bonus_loop (xs @ p # ys) (str_lower t) = fl (2 / 10)"
    by (auto simp: priority_bonus_loop_eq)
next
  fix xs p ys
  assume "sublist (str_lower p) (str_lower t)"
  then show "priority_bonus_loop (xs @ p # ys) (str_lower t) =
             priority_bonus_loop (xs @ [p]) (str_lower t)"
    by (rule priority_bonus_loop_stops)
qed

text \<open>A title that holds two priority phrases of the investor persona, \<open>business model\<close>
  and \<open>financial projections\<close>, still gets the bonus 0.2 once.\<close>

theorem priority_bonus_first_match_only_witness:
  "map_of personas ''investor'' =
     Some \<lparr>keywords = [''investment'', ''funding'', ''financial'', ''roi'', ''valuation'',
                       ''exit'', ''returns''],
           priority_sections = [''financial projections'', ''business model'',
                                ''market opportunity'', ''investment thesis'']\<rparr> \<and>
   sublist ''business model'' (str_lower ''Business Model and Financial Projections'') \<and>
   sublist ''financial projections'' (str_lower ''Business Model and Financial Projections'') \<and>
   priority_bonus_loop
     [''financial projections'', ''business model'', ''market opportunity'',
      ''investment thesis'']
     (str_lower ''Business Model and Financial Projections'') = fl (2 / 10)"
proof -
  let ?cfg = "\<lparr>keywords = [''investment'', ''funding'', ''financial'', ''roi'', ''valuation'',
                       ''exit'', ''returns''],
           priority_sections = [''financial projections'', ''business model'',
                                ''market opportunity'', ''investment thesis'']\<rparr>"
  let ?sec = "[(''title'', PyStr ''Business Model and Financial Projections''),
               (''content'', PyStr ''no keyword here'')]"
  have cfg: "map_of personas ''investor'' = Some ?cfg"
    by (simp add: personas_def)
  have t: "map_of ?sec ''title'' = Some (PyStr ''Business Model and Financial Projections'')"
    by simp
  have c: "map_of ?sec ''content'' = Some (PyStr ''no keyword here'')"
    by simp
  have m1: "sublist ''business model'' (str_lower ''Business Model and Financial Projections'')"
    by code_simp
  have m2: "sublist ''financial projections''
              (str_lower ''Business Model and Financial Projections'')"
    by code_simp
  have low: "str_lower ''business model'' = ''business model''"
    by code_simp
  from priority_bonus_first_match_only [OF cfg t c]
  have "\<forall>xs p ys. sublist (str_lower p) (str_lower ''Business Model and Financial Projections'') \<longrightarrow>
            priority_bonus_loop (xs @ p # ys)
              (str_lower ''Business Model and Financial Projections'') = fl (2 / 10)"
    by blast
  then have "priority_bonus_loop ([''financial projections''] @ ''business model'' #
                [''market opportunity'', ''investment thesis''])
              (str_lower ''Business Model and Financial Projections'') = fl (2 / 10)"
    using m1 low by metis
  then show ?thesis using cfg m1 m2 by simp
qed

lemma executive_config:
  "map_of personas ''executive'' =
     Some \<lparr>keywords = [''strategy'', ''business'', ''revenue'', ''growth'', ''market'',
                       ''leadership'', ''vision''],
           priority_sections = [''executive summary'', ''business model'', ''market analysis'',
                                ''financial projections'']\<rparr>"
  by (simp add: personas_def)

lemma executive_summary_title_term:
  "title_score_loop
     [''strategy'', ''business'', ''revenue'', ''growth'', ''market'', ''leadership'', ''vision'']
     (str_lower ''Executive Summary'') 0 = 0"
  by code_simp

lemma executive_summary_bonus:
  "priority_bonus_loop
     [''executive summary'', ''business model'', ''market analysis'', ''financial projections'']
     (str_lower ''Executive Summary'') = fl (2 / 10)"
  by code_simp

lemma content_term_3_1:
  "fadd (fadd (fadd (fadd (fadd (fadd (fadd 0
     (min (fmul (int_to_float 3) (fl (1 / 10))) (1 / 2)))
     (min (fmul (int_to_float 0) (fl (1 / 10))) (1 / 2)))
     (min (fmul (int_to_float 0) (fl (1 / 10))) (1 / 2)))
     (min (fmul (int_to_float 0) (fl (1 / 10))) (1 / 2)))
     (min (fmul (int_to_float 1) (fl (1 / 10))) (1 / 2)))
     (min (fmul (int_to_float 0) (fl (1 / 10))) (1 / 2)))
     (min (fmul (int_to_float 0) (fl (1 / 10))) (1 / 2)) = fl (4 / 10)"
  by code_simp

lemma executive_summary_total:
  "min (fadd (fadd 0 (fl (4 / 10))) (fl (2 / 10))) 1 = 1351079888211149 / 2251799813685248"
  by code_simp

lemma executive_summary_rounded:
  "py_round2 (1351079888211149 / 2251799813685248) = fl (6 / 10)"
  by code_simp

text \<open>
  Claim C6, as amended. For a section titled \<open>Executive Summary\<close> whose content, in
  lower case, holds \<open>strategy\<close> three times, \<open>market\<close> once and no other keyword of the
  executive persona, the title term is 0.0 (no keyword of the persona is a substring of
  \<open>executive summary\<close>), the content term is the float 0.4, the priority bonus is 0.2,
  and the score is 0.6000000000000001, which \<^verbatim>\<open>round(score, 2)\<close> turns into 0.6.
\<close>

theorem executive_summary_score:
  assumes "map_of personas ''executive'' = Some cfg"
    and "map_of section ''title'' = Some (PyStr ''Executive Summary'')"
    and "map_of section ''content'' = Some (PyStr c)"
    and "str_count (str_lower c) ''strategy'' = 3"
    and "str_count (str_lower c) ''market'' = 1"
    and "str_count (str_lower c) ''business'' = 0"
    and "str_count (str_lower c) ''revenue'' = 0"
    and "str_count (str_lower c) ''growth'' = 0"
    and "str_count (str_lower c) ''leadership'' = 0"
    and "str_count (str_lower c) ''vision'' = 0"
  shows "title_score_loop (keywords cfg) (str_lower ''Executive Summary'') 0 = 0 \<and>
         content_score_loop (keywords cfg) (str_lower c) 0 = fl (4 / 10) \<and>
         priority_bonus_loop (priority_sections cfg) (str_lower ''Executive Summary'')
           = fl (2 / 10) \<and>
         calculate_section_score section ''executive''
           = Inr (1351079888211149 / 2251799813685248) \<and>
         py_round2 (1351079888211149 / 2251799813685248) = fl (6 / 10)"
proof -
  from assms(1) have k: "keywords cfg =
      [''strategy'', ''business'', ''revenue'', ''growth'', ''market'', ''leadership'', ''vision'']"
    and p: "priority_sections cfg =
      [''executive summary'', ''business model'', ''market analysis'', ''financial projections'']"
    by (auto simp: personas_def)
  have low: "str_lower ''strategy'' = ''strategy''" "str_lower ''business'' = ''business''"
    "str_lower ''revenue'' = ''revenue''" "str_lower ''growth'' = ''growth''"
    "str_lower ''market'' = ''market''" "str_lower ''leadership'' = ''leadership''"
    "str_lower ''vision'' = ''vision''"
    by code_simp+
  have t: "title_score_loop (keywords cfg) (str_lower ''Executive Summary'') 0 = 0"
    unfolding k by (rule executive_summary_title_term)
  have c: "content_score_loop (keywords cfg) (str_lower c) 0 = fl (4 / 10)"
    unfolding k content_score_loop.simps Let_def low assms(4-10)
    using content_term_3_1 by simp
  have b: "priority_bonus_loop (priority_sections cfg) (str_lower ''Executive Summary'')
             = fl (2 / 10)"
    unfolding p by (rule executive_summary_bonus)
  have "calculate_section_score section ''executive''
          = Inr (min (fadd (fadd 0 (fl (4 / 10))) (fl (2 / 10))) 1)"
    unfolding calculate_section_score_known [OF assms(1-3)] t c b ..
  then have s: "calculate_section_score section ''executive''
          = Inr (1351079888211149 / 2251799813685248)"
    by (simp only: executive_summary_total)
  from t c b s executive_summary_rounded show ?thesis by blast
qed

theorem executive_summary_score_witness:
  "str_count (str_lower ''strategy strategy strategy market'') ''strategy'' = 3 \<and>
   str_count (str_lower ''strategy strategy strategy market'') ''market'' = 1 \<and>
   calculate_section_score
     [(''title'', PyStr ''Executive Summary''),
      (''content'', PyStr ''strategy strategy strategy market'')] ''executive''
     = Inr (1351079888211149 / 2251799813685248)"
proof -
  let ?c = "''strategy strategy strategy market''"
  let ?sec = "[(''title'', PyStr ''Executive Summary''), (''content'', PyStr ?c)]"
  have n: "str_count (str_lower ?c) ''strategy'' = 3" "str_count (str_lower ?c) ''market'' = 1"
    "str_count (str_lower ?c) ''business'' = 0" "str_count (str_lower ?c) ''revenue'' = 0"
    "str_count (str_lower ?c) ''growth'' = 0" "str_count (str_lower ?c) ''leadership'' = 0"
    "str_count (str_lower ?c) ''vision'' = 0"
    by code_simp+
  have t: "map_of ?sec ''title'' = Some (PyStr ''Executive Summary'')" by simp
  have c: "map_of ?sec ''content'' = Some (PyStr ?c)" by simp
  from executive_summary_score [OF executive_config t c n] n show ?thesis by blast
qed

text \<open>The claim as stated fails: the title term of this section is 0.0, not 0.3.\<close>

theorem executive_summary_title_term_counterexample:
  "map_option (\<lambda>cfg. title_score_loop (keywords cfg) (str_lower ''Executive Summary'') 0)
     (map_of personas ''executive'') = Some 0 \<and>
   fl (3 / 10) = 5404319552844595 / 18014398509481984 \<and>
   map_option (\<lambda>cfg. title_score_loop (keywords cfg) (str_lower ''Executive Summary'') 0)
     (map_of personas ''executive'') \<noteq> Some (fl (3 / 10))"
  by code_simp

section \<open>Properties of the section segmenter\<close>

lemma save_section_cleaned:
  assumes "\<forall>s \<in> set sections. (\<exists>raw. title s = clean_text raw) \<and> (\<exists>raw. content s = clean_text raw)"
  shows "\<forall>s \<in> set (save_section sections cur).
           (\<exists>raw. title s = clean_text raw) \<and> (\<exists>raw. content s = clean_text raw)"
  using assms by (auto simp: save_section_def)

lemma extract_loop_cleaned:
  assumes "\<forall>s \<in> set sections. (\<exists>raw. title s = clean_text raw) \<and> (\<exists>raw. content s = clean_text raw)"
    and "extract_loop i lines sections cur = (sections', cur')"
  shows "\<forall>s \<in> set sections'. (\<exists>raw. title s = clean_text raw) \<and> (\<exists>raw. content s = clean_text raw)"
  using assms
proof (induction lines arbitrary: i sections cur)
  case Nil
  then show ?case by simp
next
  case (Cons raw lines)
  show ?case
  proof (cases "strip raw = []")
    case True
    with Cons.prems(2) have "extract_loop (i + 1) lines sections cur = (sections', cur')"
      by simp
    with Cons.IH Cons.prems(1) show ?thesis by blast
  next
    case False
    show ?thesis
    proof (cases "is_header (strip raw)")
      case True
      with False Cons.prems(2)
      have "extract_loop (i + 1) lines (save_section sections cur)
              \<lparr>title = rstrip_colon (strip raw), content = [],
                 page_number = int (i div 50) + 1\<rparr> = (sections', cur')"
        by (simp add: Let_def)
      with Cons.IH save_section_cleaned [OF Cons.prems(1)] show ?thesis by blast
    next
      case h: False
      with False Cons.prems(2)
      have "extract_loop (i + 1) lines sections
              (cur\<lparr>content := content cur @ strip raw @ [CHR 0x0A]\<rparr>) = (sections', cur')"
        by (simp add: Let_def)
      with Cons.IH Cons.prems(1) show ?thesis by blast
    qed
  qed
qed

lemma candidate_sections_cleaned:
  "\<forall>s \<in> set (candidate_sections text).
     (\<exists>raw. title s = clean_text raw) \<and> (\<exists>raw. content s = clean_text raw)"
proof -
  obtain sections cur where
    l: "extract_loop 0 (split_newline text) []
          \<lparr>title = ''Introduction'', content = [], page_number = 1\<rparr> = (sections, cur)"
    by (cases "extract_loop 0 (split_newline text) []
          \<lparr>title = ''Introduction'', content = [], page_number = 1\<rparr>")
  have "\<forall>s \<in> set sections. (\<exists>raw. title s = clean_text raw) \<and> (\<exists>raw. content s = clean_text raw)"
    by (rule extract_loop_cleaned [OF _ l]) simp
  then have "\<forall>s \<in> set (save_section sections cur).
      (\<exists>raw. title s = clean_text raw) \<and> (\<exists>raw. content s = clean_text raw)"
    by (rule save_section_cleaned)
  then show ?thesis by (simp add: candidate_sections_def l)
qed

text \<open>
  Claim C8. Every section the segmenter returns has a normalized title that is not
  blank, a normalized content that is not blank and is longer than 10 characters (so
  at least 10); the result is the list of candidate sections without those that fail
  one of these tests, so a candidate whose normalized content has at most 10
  characters is not returned.
\<close>

theorem extract_sections_post_filter:
  "extract_sections text = filter valid_section (candidate_sections text) \<and>
   (\<forall>s \<in> set (extract_sections text).
      (\<exists>raw. title s = clean_text raw) \<and> strip (title s) \<noteq> [] \<and>
      (\<exists>raw. content s = clean_text raw) \<and> strip (content s) \<noteq> [] \<and>
      10 < length (content s) \<and> 10 \<le> length (content s)) \<and>
   (\<forall>s \<in> set (candidate_sections text).
      length (content s) \<le> 10 \<longrightarrow> s \<notin> set (extract_sections text))"
  using candidate_sections_cleaned [of "text"]
  by (auto simp: extract_sections_def valid_section_def)

theorem extract_sections_post_filter_witness:
  "\<lparr>title = ''INTRO'', content = ''This is some long content here'', page_number = 1\<rparr>
     \<in> set (extract_sections
         (''INTRO'' @ [CHR 0x0A] @ ''This is some  long content here'' @ [CHR 0x0A] @
          ''B:'' @ [CHR 0x0A] @ ''short'' @ [CHR 0x0A])) \<and>
   10 < length ''This is some long content here'' \<and>
   \<lparr>title = ''B'', content = ''short'', page_number = 1\<rparr>
     \<in> set (candidate_sections
         (''INTRO'' @ [CHR 0x0A] @ ''This is some  long content here'' @ [CHR 0x0A] @
          ''B:'' @ [CHR 0x0A] @ ''short'' @ [CHR 0x0A])) \<and>
   \<lparr>title = ''B'', content = ''short'', page_number = 1\<rparr>
     \<notin> set (extract_sections
         (''INTRO'' @ [CHR 0x0A] @ ''This is some  long content here'' @ [CHR 0x0A] @
          ''B:'' @ [CHR 0x0A] @ ''short'' @ [CHR 0x0A]))"
proof -
  let ?text = "''INTRO'' @ [CHR 0x0A] @ ''This is some  long content here'' @ [CHR 0x0A] @
          ''B:'' @ [CHR 0x0A] @ ''short'' @ [CHR 0x0A]"
  let ?a = "\<lparr>title = ''INTRO'', content = ''This is some long content here'', page_number = 1\<rparr>"
  let ?b = "\<lparr>title = ''B'', content = ''short'', page_number = 1\<rparr>"
  have c: "candidate_sections ?text = [?a, ?b]"
    by code_simp
  have e: "?a \<in> set (extract_sections ?text)"
    by code_simp
  have b: "?b \<in> set (candidate_sections ?text)"
    by (simp only: c) simp
  have "10 < length (content ?a)" and "?b \<notin> set (extract_sections ?text)"
    using extract_sections_post_filter [of ?text] e b by auto
  with e b show ?thesis by simp
qed

section \<open>Properties of the ranker\<close>

lemma setitem_last:
  "setitem (h @ [d]) (length h) key v = h @ [AList.update key v d]"
  by (simp add: setitem_def)

lemma upt_first: "[L] @ [L + 1 ..< L + 1 + n] = [L ..< L + Suc n]"
proof -
  have "[L ..< L + Suc n] = L # [Suc L ..< L + Suc n]"
    by (rule upt_conv_Cons) simp
  then show ?thesis by simp
qed

lemma score_loop_result:
  assumes "\<forall>r \<in> set rs. r < length h"
    and "\<forall>r \<in> set rs. \<exists>x. calculate_section_score (h ! r) pname = Inr x"
  shows "score_loop (h @ ext) rs pname acc =
           Inr (h @ ext @ map (\<lambda>r. AList.update ''relevance_score''
                                     (PyFloat (score_of (h ! r) pname)) (h ! r)) rs,
                acc @ [length h + length ext ..< length h + length ext + length rs])"
  using assms
proof (induction rs arbitrary: ext acc)
  case Nil
  then show ?case by simp
next
  case (Cons r rs)
  from Cons.prems have r: "r < length h" by simp
  then have rd: "(h @ ext) ! r = h ! r" by (simp add: nth_append)
  from Cons.prems obtain x where x: "calculate_section_score (h ! r) pname = Inr x"
    by auto
  then have sx: "score_of (h ! r) pname = x" by (simp add: score_of_def)
  let ?d = "AList.update ''relevance_score'' (PyFloat x) (h ! r)"
  have step: "score_loop (h @ ext) (r # rs) pname acc =
              score_loop (h @ (ext @ [?d])) rs pname (acc @ [length h + length ext])"
    using setitem_last [of "h @ ext" "h ! r" "''relevance_score''" "PyFloat x"]
    by (simp add: rd x alloc_def)
  have ih: "score_loop (h @ (ext @ [?d])) rs pname (acc @ [length h + length ext]) =
       Inr (h @ (ext @ [?d]) @ map (\<lambda>r. AList.update ''relevance_score''
                                     (PyFloat (score_of (h ! r) pname)) (h ! r)) rs,
            (acc @ [length h + length ext]) @
              [length h + length (ext @ [?d]) ..< length h + length (ext @ [?d]) + length rs])"
    using Cons.prems by (intro Cons.IH) simp_all
  have rng: "[length h + length ext] @
               [length h + length (ext @ [?d]) ..< length h + length (ext @ [?d]) + length rs]
             = [length h + length ext ..< length h + length ext + length (r # rs)]"
    using upt_first [of "length h + length ext" "length rs"] by simp
  show ?case
    unfolding step ih using rng by (simp add: sx)
qed

lemma sort_keys_result:
  assumes "\<forall>r \<in> set rs. map_of (h ! r) ''relevance_score'' = Some (PyFloat (K r))"
  shows "sort_keys h rs = Inr (map (\<lambda>r. (K r, r)) rs)"
  using assms by (induction rs) (simp_all add: float_item_def)

lemma insort_key_pairs:
  "insort_key (\<lambda>p. F (fst p)) (K x, x) (map (\<lambda>r. (K r, r)) ys) =
   map (\<lambda>r. (K r, r)) (insort_key (\<lambda>r. F (K r)) x ys)"
  by (induction ys) simp_all

lemma sort_key_pairs:
  "sort_key (\<lambda>p. F (fst p)) (map (\<lambda>r. (K r, r)) rs) =
   map (\<lambda>r. (K r, r)) (sort_key (\<lambda>r. F (K r)) rs)"
  by (induction rs) (simp_all add: insort_key_pairs)

lemma sort_reverse_pairs:
  "sort_reverse (map (\<lambda>r. (K r, r)) rs) = sort_key (\<lambda>r. - K r) rs"
  by (simp add: sort_reverse_def sort_key_pairs [where F = uminus] comp_def)

lemma insort_key_stable_order:
  fixes f :: "nat \<Rightarrow> rat"
  assumes "sorted_wrt (\<lambda>a b. f a < f b \<or> (f a = f b \<and> a < b)) ys"
    and "\<forall>y \<in> set ys. x < y"
  shows "sorted_wrt (\<lambda>a b. f a < f b \<or> (f a = f b \<and> a < b)) (insort_key f x ys)"
  using assms
proof (induction ys)
  case Nil
  then show ?case by simp
next
  case (Cons y ys)
  show ?case
  proof (cases "f x \<le> f y")
    case True
    have "\<forall>z \<in> set (y # ys). f x < f z \<or> (f x = f z \<and> x < z)"
    proof
      fix z assume z: "z \<in> set (y # ys)"
      with Cons.prems(1) have "f y \<le> f z" by auto
      with True have "f x \<le> f z" by simp
      moreover from z Cons.prems(2) have "x < z" by auto
      ultimately show "f x < f z \<or> (f x = f z \<and> x < z)" by auto
    qed
    with True Cons.prems(1) show ?thesis by simp
  next
    case False
    from Cons.prems have "sorted_wrt (\<lambda>a b. f a < f b \<or> (f a = f b \<and> a < b)) (insort_key f x ys)"
      by (intro Cons.IH) simp_all
    moreover have "\<forall>z \<in> set (insort_key f x ys). f y < f z \<or> (f y = f z \<and> y < z)"
      using False Cons.prems(1) by (auto simp: set_insort_key)
    ultimately show ?thesis using False by simp
  qed
qed

lemma sort_key_stable_order:
  fixes f :: "nat \<Rightarrow> rat"
  assumes "sorted_wrt (<) rs"
  shows "sorted_wrt (\<lambda>a b. f a < f b \<or> (f a = f b \<and> a < b)) (sort_key f rs)"
  using assms
proof (induction rs)
  case Nil
  then show ?case by simp
next
  case (Cons r rs)
  then have "sorted_wrt (\<lambda>a b. f a < f b \<or> (f a = f b \<and> a < b)) (sort_key f rs)"
    by simp
  moreover from Cons.prems have "\<forall>y \<in> set (sort_key f rs). r < y" by simp
  ultimately show ?case by (simp add: insort_key_stable_order)
qed

lemma map_of_update_other:
  "key' \<noteq> key \<Longrightarrow> map_of (AList.update key v d) key' = map_of d key'"
  by (simp add: update_conv)

lemma map_of_update_same: "map_of (AList.update key v d) key = Some v"
  by (simp add: update_conv)

lemma rank_loop_result:
  assumes "distinct rs"
    and "\<forall>r \<in> set rs. r < length h"
    and "\<forall>r \<in> set rs. map_of (h ! r) ''relevance_score'' = Some (PyFloat (K r))"
  shows "\<exists>h'. rank_loop h i rs = Inr h' \<and> length h' = length h \<and>
           (\<forall>k < length rs. h' ! (rs ! k) =
              AList.update ''relevance_score'' (PyFloat (py_round2 (K (rs ! k))))
                (AList.update ''importance_rank'' (PyInt (int (i + k) + 1)) (h ! (rs ! k)))) \<and>
           (\<forall>a. a \<notin> set rs \<longrightarrow> h' ! a = h ! a)"
  using assms
proof (induction rs arbitrary: h i)
  case Nil
  then show ?case by simp
next
  case (Cons r rs)
  from Cons.prems have r: "r < length h" and rn: "r \<notin> set rs" and d: "distinct rs"
    by simp_all
  define h1 where "h1 = setitem h r ''importance_rank'' (PyInt (int i + 1))"
  define h2 where "h2 = setitem h1 r ''relevance_score'' (PyFloat (py_round2 (K r)))"
  have h1r: "h1 ! r = AList.update ''importance_rank'' (PyInt (int i + 1)) (h ! r)"
    using r by (simp add: h1_def setitem_def)
  have "map_of (h1 ! r) ''relevance_score'' = Some (PyFloat (K r))"
    using Cons.prems(3) by (simp add: h1r map_of_update_other)
  then have fi: "float_item (h1 ! r) ''relevance_score'' = Inr (K r)"
    by (simp add: float_item_def)
  have step: "rank_loop h i (r # rs) = rank_loop h2 (i + 1) rs"
    by (simp add: Let_def h1_def [symmetric] fi h2_def [symmetric])
  have len: "length h2 = length h" by (simp add: h2_def h1_def setitem_def)
  have h2r: "h2 ! r = AList.update ''relevance_score'' (PyFloat (py_round2 (K r)))
                        (AList.update ''importance_rank'' (PyInt (int i + 1)) (h ! r))"
    using r by (simp add: h2_def setitem_def h1r) (simp add: h1_def setitem_def)
  have other: "\<And>a. a \<noteq> r \<Longrightarrow> h2 ! a = h ! a"
    by (simp add: h2_def h1_def setitem_def)
  have "\<forall>r' \<in> set rs. r' < length h2" using Cons.prems(2) len by simp
  moreover have "\<forall>r' \<in> set rs. map_of (h2 ! r') ''relevance_score'' = Some (PyFloat (K r'))"
  proof
    fix r' assume r': "r' \<in> set rs"
    with rn have "r' \<noteq> r" by auto
    then have "h2 ! r' = h ! r'" by (rule other)
    with Cons.prems(3) r' show "map_of (h2 ! r') ''relevance_score'' = Some (PyFloat (K r'))"
      by simp
  qed
  ultimately obtain h' where h': "rank_loop h2 (i + 1) rs = Inr h'" "length h' = length h2"
    "\<forall>k < length rs. h' ! (rs ! k) =
        AList.update ''relevance_score'' (PyFloat (py_round2 (K (rs ! k))))
          (AList.update ''importance_rank'' (PyInt (int (i + 1 + k) + 1)) (h2 ! (rs ! k)))"
    "\<forall>a. a \<notin> set rs \<longrightarrow> h' ! a = h2 ! a"
    using Cons.IH [OF d, of h2 "i + 1"] by blast
  have "\<forall>k < length (r # rs). h' ! ((r # rs) ! k) =
          AList.update ''relevance_score'' (PyFloat (py_round2 (K ((r # rs) ! k))))
            (AList.update ''importance_rank'' (PyInt (int (i + k) + 1)) (h ! ((r # rs) ! k)))"
  proof (intro allI impI)
    fix k assume k: "k < length (r # rs)"
    show "h' ! ((r # rs) ! k) =
          AList.update ''relevance_score'' (PyFloat (py_round2 (K ((r # rs) ! k))))
            (AList.update ''importance_rank'' (PyInt (int (i + k) + 1)) (h ! ((r # rs) ! k)))"
    proof (cases k)
      case 0
      with h'(4) rn h2r show ?thesis by simp
    next
      case (Suc k')
      with k have k': "k' < length rs" by simp
      then have "rs ! k' \<in> set rs" by simp
      with rn have "rs ! k' \<noteq> r" by auto
      then have "h2 ! (rs ! k') = h ! (rs ! k')" by (rule other)
      with h'(3) k' Suc show ?thesis by (simp add: add.commute add.left_commute)
    qed
  qed
  moreover have "\<forall>a. a \<notin> set (r # rs) \<longrightarrow> h' ! a = h ! a"
    using h'(4) other by auto
  ultimately show ?case using step h'(1,2) len by simp
qed

lemma prioritize_sections_result:
  assumes "\<forall>r \<in> set sections. r < length h"
    and "\<forall>r \<in> set sections. \<exists>x. calculate_section_score (h ! r) pname = Inr x"
  shows "\<exists>h'. prioritize_sections h sections pname =
           Inr (h', sort_key (\<lambda>r. - score_of (h ! (sections ! (r - length h))) pname)
                      [length h ..< length h + length sections]) \<and>
         length h' = length h + length sections \<and>
         (\<forall>a < length h. h' ! a = h ! a) \<and>
         (\<forall>k < length sections.
            h' ! (sort_key (\<lambda>r. - score_of (h ! (sections ! (r - length h))) pname)
                      [length h ..< length h + length sections] ! k) =
            ranked_copy
              (h ! (sections ! (sort_key (\<lambda>r. - score_of (h ! (sections ! (r - length h))) pname)
                      [length h ..< length h + length sections] ! k - length h)))
              (score_of (h ! (sections ! (sort_key (\<lambda>r. - score_of (h ! (sections ! (r - length h))) pname)
                      [length h ..< length h + length sections] ! k - length h))) pname) k)"
proof -
  define n where "n = length h"
  define N where "N = length sections"
  define sc where "sc = (\<lambda>r. score_of (h ! (sections ! (r - n))) pname)"
  define copy where "copy = (\<lambda>r. AList.update ''relevance_score''
                                     (PyFloat (score_of (h ! r) pname)) (h ! r))"
  define h1 where "h1 = h @ map copy sections"
  define out where "out = sort_key (\<lambda>r. - sc r) [n ..< n + N]"
  have s1: "score_loop h sections pname [] = Inr (h1, [n ..< n + N])"
    using score_loop_result [OF assms, of "[]" "[]"]
    by (simp add: h1_def copy_def n_def N_def)
  have h1new: "\<And>r. r \<in> set [n ..< n + N] \<Longrightarrow>
                  h1 ! r = AList.update ''relevance_score'' (PyFloat (sc r)) (h ! (sections ! (r - n)))"
    by (auto simp: h1_def nth_append n_def N_def copy_def sc_def)
  then have key: "\<forall>r \<in> set [n ..< n + N]. map_of (h1 ! r) ''relevance_score'' = Some (PyFloat (sc r))"
    by (simp add: map_of_update_same)
  then have s2: "sort_keys h1 [n ..< n + N] = Inr (map (\<lambda>r. (sc r, r)) [n ..< n + N])"
    by (rule sort_keys_result)
  have s3: "sort_reverse (map (\<lambda>r. (sc r, r)) [n ..< n + N]) = out"
    by (simp add: sort_reverse_pairs out_def)
  have set_out: "set out = set [n ..< n + N]" by (simp add: out_def)
  have dist: "distinct out" by (simp add: out_def)
  have len_out: "length out = N" by (simp add: out_def)
  have "\<forall>r \<in> set out. r < length h1"
    using set_out by (auto simp: h1_def n_def N_def)
  moreover have "\<forall>r \<in> set out. map_of (h1 ! r) ''relevance_score'' = Some (PyFloat (sc r))"
    using key set_out by blast
  ultimately obtain h2 where h2: "rank_loop h1 0 out = Inr h2" "length h2 = length h1"
    "\<forall>k < length out. h2 ! (out ! k) =
        AList.update ''relevance_score'' (PyFloat (py_round2 (sc (out ! k))))
          (AList.update ''importance_rank'' (PyInt (int (0 + k) + 1)) (h1 ! (out ! k)))"
    "\<forall>a. a \<notin> set out \<longrightarrow> h2 ! a = h1 ! a"
    using rank_loop_result [OF dist, of h1 sc 0] by blast
  have res: "prioritize_sections h sections pname = Inr (h2, out)"
    by (simp add: prioritize_sections_def s1 s2 s3 h2(1))
  have old: "\<forall>a < length h. h2 ! a = h ! a"
  proof (intro allI impI)
    fix a assume a: "a < length h"
    then have "a \<notin> set out" using set_out by (simp add: n_def)
    with h2(4) have "h2 ! a = h1 ! a" by blast
    with a show "h2 ! a = h ! a" by (simp add: h1_def nth_append)
  qed
  have new: "\<forall>k < N. h2 ! (out ! k) =
               ranked_copy (h ! (sections ! (out ! k - n))) (sc (out ! k)) k"
  proof (intro allI impI)
    fix k assume k: "k < N"
    then have "out ! k \<in> set out" using len_out by simp
    then have "out ! k \<in> set [n ..< n + N]" using set_out by simp
    then have "h1 ! (out ! k) =
        AList.update ''relevance_score'' (PyFloat (sc (out ! k))) (h ! (sections ! (out ! k - n)))"
      by (rule h1new)
    with h2(3) k len_out show "h2 ! (out ! k) =
               ranked_copy (h ! (sections ! (out ! k - n))) (sc (out ! k)) k"
      by (simp add: ranked_copy_def)
  qed
  have "length h2 = n + N" using h2(2) by (simp add: h1_def n_def N_def)
  with res old new show ?thesis
    unfolding out_def sc_def n_def N_def by blast
qed

lemma map_minus_upt: "map (\<lambda>r. r - n) [n ..< n + N] = [0 ..< N]"
  by (induction N) simp_all

lemma ranked_copy_items:
  "map_of (ranked_copy d x k) ''importance_rank'' = Some (PyInt (int k + 1))"
  "map_of (ranked_copy d x k) ''relevance_score'' = Some (PyFloat (py_round2 x))"
  by (simp_all add: ranked_copy_def update_conv)

lemma prioritize_sections_order:
  assumes "\<forall>r \<in> set sections. r < length h"
    and "\<forall>r \<in> set sections. \<exists>x. calculate_section_score (h ! r) pname = Inr x"
  shows "\<exists>h' out perm. prioritize_sections h sections pname = Inr (h', out) \<and>
     length out = length sections \<and> length h' = length h + length sections \<and>
     set out = {length h ..< length h + length sections} \<and>
     (\<forall>a < length h. h' ! a = h ! a) \<and>
     mset perm = mset [0 ..< length sections] \<and>
     (\<forall>k < length sections.
        h' ! (out ! k) = ranked_copy (h ! (sections ! (perm ! k)))
                           (score_of (h ! (sections ! (perm ! k))) pname) k) \<and>
     (\<forall>i j. i < j \<and> j < length sections \<longrightarrow>
        score_of (h ! (sections ! (perm ! j))) pname \<le> score_of (h ! (sections ! (perm ! i))) pname \<and>
        (score_of (h ! (sections ! (perm ! i))) pname = score_of (h ! (sections ! (perm ! j))) pname
           \<longrightarrow> perm ! i < perm ! j))"
proof -
  define n where "n = length h"
  define N where "N = length sections"
  define f where "f = (\<lambda>r. - score_of (h ! (sections ! (r - n))) pname)"
  define out where "out = sort_key f [n ..< n + N]"
  define perm where "perm = map (\<lambda>r. r - n) out"
  from prioritize_sections_result [OF assms] obtain h' where
    res: "prioritize_sections h sections pname = Inr (h', out)"
    and len: "length h' = n + N"
    and old: "\<forall>a < n. h' ! a = h ! a"
    and new: "\<forall>k < N. h' ! (out ! k) =
         ranked_copy (h ! (sections ! (out ! k - n)))
           (score_of (h ! (sections ! (out ! k - n))) pname) k"
    unfolding out_def f_def n_def N_def by blast
  have len_out: "length out = N" by (simp add: out_def)
  have set_out: "set out = {n ..< n + N}" by (simp add: out_def)
  have "mset out = mset [n ..< n + N]" by (simp add: out_def)
  then have "mset (map (\<lambda>r. r - n) out) = mset (map (\<lambda>r. r - n) [n ..< n + N])"
    by (simp only: mset_map)
  then have perm: "mset perm = mset [0 ..< N]"
    by (simp only: perm_def map_minus_upt)
  have pk: "\<And>k. k < N \<Longrightarrow> perm ! k = out ! k - n"
    by (simp add: perm_def len_out)
  have ge: "\<And>k. k < N \<Longrightarrow> n \<le> out ! k"
  proof -
    fix k assume "k < N"
    then have "out ! k \<in> set out" by (simp add: len_out)
    then show "n \<le> out ! k" by (simp add: set_out)
  qed
  have "sorted_wrt (<) [n ..< n + N]" by simp
  then have srt: "sorted_wrt (\<lambda>a b. f a < f b \<or> (f a = f b \<and> a < b)) out"
    unfolding out_def by (rule sort_key_stable_order)
  have ord: "\<forall>i j. i < j \<and> j < N \<longrightarrow>
        score_of (h ! (sections ! (perm ! j))) pname \<le> score_of (h ! (sections ! (perm ! i))) pname \<and>
        (score_of (h ! (sections ! (perm ! i))) pname = score_of (h ! (sections ! (perm ! j))) pname
           \<longrightarrow> perm ! i < perm ! j)"
  proof (intro allI impI)
    fix i j assume ij: "i < j \<and> j < N"
    then have i: "i < N" and j: "j < N" and lt: "i < j" by simp_all
    from srt lt j have "f (out ! i) < f (out ! j) \<or> (f (out ! i) = f (out ! j) \<and> out ! i < out ! j)"
      by (simp add: sorted_wrt_iff_nth_less len_out)
    moreover have "f (out ! i) = - score_of (h ! (sections ! (perm ! i))) pname"
      by (simp add: f_def pk [OF i])
    moreover have "f (out ! j) = - score_of (h ! (sections ! (perm ! j))) pname"
      by (simp add: f_def pk [OF j])
    moreover have "out ! i < out ! j \<Longrightarrow> perm ! i < perm ! j"
      using ge [OF i] ge [OF j] by (simp add: pk [OF i] pk [OF j])
    ultimately show
      "score_of (h ! (sections ! (perm ! j))) pname \<le> score_of (h ! (sections ! (perm ! i))) pname \<and>
        (score_of (h ! (sections ! (perm ! i))) pname = score_of (h ! (sections ! (perm ! j))) pname
           \<longrightarrow> perm ! i < perm ! j)"
      by auto
  qed
  have new': "\<forall>k < N. h' ! (out ! k) = ranked_copy (h ! (sections ! (perm ! k)))
                           (score_of (h ! (sections ! (perm ! k))) pname) k"
    using new pk by simp
  show ?thesis
    using res len_out len set_out old perm new' ord unfolding n_def N_def by blast
qed

text \<open>
  Claim C1, as amended. For a store \<open>h\<close>, a list of sections in it whose titles and
  contents are strings, and any persona name, the ranker returns a list \<open>out\<close> of as
  many new dictionaries; \<open>perm\<close>, a permutation of the input positions, tells which
  input section stands where, and \<^const>\<open>score_of\<close> is the score the scorer returns.
  The dictionary at position \<open>k\<close> is the copy of its input section with
  \<^verbatim>\<open>importance_rank\<close> \<open>k + 1\<close> (so the ranks are 1 to \<open>N\<close>, each once) and with
  the rounded score as \<^verbatim>\<open>relevance_score\<close>. Along the result the rounded scores do
  not increase, the scores before rounding do not increase, and sections with equal
  scores before rounding stand in their input order.
\<close>

theorem prioritize_sections_ranking:
  assumes "\<forall>r \<in> set sections. r < length h \<and> scorable (h ! r)"
  shows "\<exists>h' out perm. prioritize_sections h sections pname = Inr (h', out) \<and>
     length out = length sections \<and>
     mset perm = mset [0 ..< length sections] \<and>
     (\<forall>i < length sections.
        calculate_section_score (h ! (sections ! i)) pname =
          Inr (score_of (h ! (sections ! i)) pname)) \<and>
     (\<forall>k < length sections.
        h' ! (out ! k) = ranked_copy (h ! (sections ! (perm ! k)))
                           (score_of (h ! (sections ! (perm ! k))) pname) k \<and>
        map_of (h' ! (out ! k)) ''importance_rank'' = Some (PyInt (int k + 1)) \<and>
        map_of (h' ! (out ! k)) ''relevance_score'' =
          Some (PyFloat (py_round2 (score_of (h ! (sections ! (perm ! k))) pname)))) \<and>
     (\<forall>i j. i < j \<and> j < length sections \<longrightarrow>
        py_round2 (score_of (h ! (sections ! (perm ! j))) pname)
          \<le> py_round2 (score_of (h ! (sections ! (perm ! i))) pname) \<and>
        score_of (h ! (sections ! (perm ! j))) pname
          \<le> score_of (h ! (sections ! (perm ! i))) pname \<and>
        (score_of (h ! (sections ! (perm ! i))) pname = score_of (h ! (sections ! (perm ! j))) pname
           \<longrightarrow> perm ! i < perm ! j))"
proof -
  define N where "N = length sections"
  define S where "S = (\<lambda>i. score_of (h ! (sections ! i)) pname)"
  from assms have refs: "\<forall>r \<in> set sections. r < length h" by blast
  from assms have "\<forall>r \<in> set sections. \<exists>x. calculate_section_score (h ! r) pname = Inr x"
    using scorable_score by blast
  from prioritize_sections_order [OF refs this] obtain h' out perm where
    res: "prioritize_sections h sections pname = Inr (h', out)"
    and len: "length out = N"
    and perm: "mset perm = mset [0 ..< N]"
    and new: "\<forall>k < N. h' ! (out ! k) = ranked_copy (h ! (sections ! (perm ! k))) (S (perm ! k)) k"
    and ord: "\<forall>i j. i < j \<and> j < N \<longrightarrow> S (perm ! j) \<le> S (perm ! i) \<and>
                (S (perm ! i) = S (perm ! j) \<longrightarrow> perm ! i < perm ! j)"
    unfolding N_def S_def by blast
  from perm have lp: "length perm = N" using mset_eq_length by fastforce
  from perm have sp: "set perm = {0 ..< N}" using mset_eq_setD by fastforce
  have nonneg: "\<And>k. k < N \<Longrightarrow> 0 \<le> S (perm ! k)"
  proof -
    fix k assume "k < N"
    then have "perm ! k \<in> set perm" by (simp add: lp)
    then have "perm ! k < N" by (simp add: sp)
    then have "sections ! (perm ! k) \<in> set sections" by (simp add: N_def)
    with assms have "scorable (h ! (sections ! (perm ! k)))" by blast
    then show "0 \<le> S (perm ! k)" unfolding S_def by (rule scorable_score_of)
  qed
  have items: "\<forall>k < N.
        h' ! (out ! k) = ranked_copy (h ! (sections ! (perm ! k))) (S (perm ! k)) k \<and>
        map_of (h' ! (out ! k)) ''importance_rank'' = Some (PyInt (int k + 1)) \<and>
        map_of (h' ! (out ! k)) ''relevance_score'' = Some (PyFloat (py_round2 (S (perm ! k))))"
    using new by (simp add: ranked_copy_items)
  have mono: "\<forall>i j. i < j \<and> j < N \<longrightarrow>
        py_round2 (S (perm ! j)) \<le> py_round2 (S (perm ! i)) \<and>
        S (perm ! j) \<le> S (perm ! i) \<and>
        (S (perm ! i) = S (perm ! j) \<longrightarrow> perm ! i < perm ! j)"
  proof (intro allI impI)
    fix i j assume ij: "i < j \<and> j < N"
    with ord have o: "S (perm ! j) \<le> S (perm ! i)"
      "S (perm ! i) = S (perm ! j) \<longrightarrow> perm ! i < perm ! j" by blast+
    from ij have "0 \<le> S (perm ! j)" by (intro nonneg) simp
    then have "py_round2 (S (perm ! j)) \<le> py_round2 (S (perm ! i))"
      using o(1) by (rule py_round2_mono)
    with o show "py_round2 (S (perm ! j)) \<le> py_round2 (S (perm ! i)) \<and>
        S (perm ! j) \<le> S (perm ! i) \<and>
        (S (perm ! i) = S (perm ! j) \<longrightarrow> perm ! i < perm ! j)" by blast
  qed
  have scores: "\<forall>i < N. calculate_section_score (h ! (sections ! i)) pname = Inr (S i)"
  proof (intro allI impI)
    fix i assume "i < N"
    then have "sections ! i \<in> set sections" by (simp add: N_def)
    with assms have "scorable (h ! (sections ! i))" by blast
    from scorable_score [OF this, of pname]
    show "calculate_section_score (h ! (sections ! i)) pname = Inr (S i)"
      by (auto simp: S_def score_of_def)
  qed
  from res len perm scores items mono show ?thesis
    unfolding N_def S_def by blast
qed

theorem prioritize_sections_ranking_witness:
  "\<exists>h' out perm.
     prioritize_sections
       [[(''title'', PyStr ''Market''), (''content'', PyStr ''x'')],
        [(''title'', PyStr ''Other''), (''content'', PyStr ''strategy strategy strategy'')]]
       [0, 1] ''executive'' = Inr (h', out) \<and>
     length out = 2 \<and> mset perm = mset [0 ..< 2] \<and>
     map_of (h' ! (out ! 0)) ''importance_rank'' = Some (PyInt 1) \<and>
     map_of (h' ! (out ! 1)) ''importance_rank'' = Some (PyInt 2)"
proof -
  let ?h = "[[(''title'', PyStr ''Market''), (''content'', PyStr ''x'')],
        [(''title'', PyStr ''Other''), (''content'', PyStr ''strategy strategy strategy'')]]"
  have "\<forall>r \<in> set [0, 1]. r < length ?h \<and> scorable (?h ! r)"
    by (simp add: scorable_def str_item_def)
  from prioritize_sections_ranking [OF this, of "''executive''"]
  obtain h' out perm where
    r: "prioritize_sections ?h [0, 1] ''executive'' = Inr (h', out)"
    and l: "length out = length [0::nat, 1]"
    and p: "mset perm = mset [0 ..< length [0::nat, 1]]"
    and k: "\<forall>k < length [0::nat, 1].
        map_of (h' ! (out ! k)) ''importance_rank'' = Some (PyInt (int k + 1))"
    by blast
  from l have l2: "length out = 2" by simp
  have two: "length [0::nat, 1] = 2" by simp
  from p have p2: "mset perm = mset [0 ..< 2]" by (simp only: two)
  from k have k0: "map_of (h' ! (out ! 0)) ''importance_rank'' = Some (PyInt 1)"
    and k1: "map_of (h' ! (out ! 1)) ''importance_rank'' = Some (PyInt 2)"
    by simp_all
  from r l2 p2 k0 k1 show ?thesis by blast
qed

text \<open>
  The claim as stated fails where two scores differ before rounding and agree after it.
  \<open>Market\<close> scores 0.3 by its title, \<open>Other\<close> scores 0.30000000000000004 by three
  keyword occurrences in its content (\<^verbatim>\<open>3 * 0.1\<close>); both are reported with the
  \<^verbatim>\<open>relevance_score\<close> 0.3, and \<open>Other\<close>, the later section, is ranked first.
\<close>

theorem prioritize_sections_tie_counterexample:
  "calculate_section_score [(''title'', PyStr ''Market''), (''content'', PyStr ''x'')] ''executive''
     = Inr (fl (3 / 10)) \<and>
   calculate_section_score
     [(''title'', PyStr ''Other''), (''content'', PyStr ''strategy strategy strategy'')] ''executive''
     = Inr (1351079888211149 / 4503599627370496) \<and>
   fl (3 / 10) < 1351079888211149 / 4503599627370496 \<and>
   map_sum id
     (\<lambda>(h', out). map (\<lambda>r. (map_of (h' ! r) ''title'', map_of (h' ! r) ''relevance_score'',
                              map_of (h' ! r) ''importance_rank'')) out)
     (prioritize_sections
        [[(''title'', PyStr ''Market''), (''content'', PyStr ''x'')],
         [(''title'', PyStr ''Other''), (''content'', PyStr ''strategy strategy strategy'')]]
        [0, 1] ''executive'')
   = Inr [(Some (PyStr ''Other''), Some (PyFloat (fl (3 / 10))), Some (PyInt 1)),
          (Some (PyStr ''Market''), Some (PyFloat (fl (3 / 10))), Some (PyInt 2))]"
  by code_simp

lemma py_round2_zero: "py_round2 0 = 0"
  by (simp add: py_round2_def rne_def fl_def)

lemma score_loop_raises:
  assumes "\<forall>r \<in> set rs. r < length h"
    and "\<exists>r \<in> set rs. \<exists>e. calculate_section_score (h ! r) pname = Inl e"
  shows "\<exists>e. score_loop (h @ ext) rs pname acc = Inl e"
  using assms
proof (induction rs arbitrary: ext acc)
  case Nil
  then show ?case by simp
next
  case (Cons r rs)
  from Cons.prems have r: "r < length h" by simp
  then have rd: "(h @ ext) ! r = h ! r" by (simp add: nth_append)
  show ?case
  proof (cases "calculate_section_score (h ! r) pname")
    case (Inl e)
    then show ?thesis by (simp add: rd)
  next
    case (Inr x)
    with Cons.prems(2) have bad: "\<exists>r \<in> set rs. \<exists>e. calculate_section_score (h ! r) pname = Inl e"
      by auto
    let ?d = "AList.update ''relevance_score'' (PyFloat x) (h ! r)"
    have "score_loop (h @ ext) (r # rs) pname acc =
          score_loop (h @ (ext @ [?d])) rs pname (acc @ [length h + length ext])"
      using setitem_last [of "h @ ext" "h ! r" "''relevance_score''" "PyFloat x"]
      by (simp add: rd Inr alloc_def)
    moreover from Cons.prems(1) bad
    have "\<exists>e. score_loop (h @ (ext @ [?d])) rs pname (acc @ [length h + length ext]) = Inl e"
      by (intro Cons.IH) simp_all
    ultimately show ?thesis by simp
  qed
qed

lemma prioritize_sections_returns:
  assumes "\<forall>r \<in> set sections. r < length h"
    and "prioritize_sections h sections pname = Inr res"
  shows "\<forall>r \<in> set sections. \<exists>x. calculate_section_score (h ! r) pname = Inr x"
proof (rule ccontr)
  assume "\<not> (\<forall>r \<in> set sections. \<exists>x. calculate_section_score (h ! r) pname = Inr x)"
  then obtain r where r: "r \<in> set sections"
    and "\<forall>x. calculate_section_score (h ! r) pname \<noteq> Inr x" by blast
  then obtain e where "calculate_section_score (h ! r) pname = Inl e"
    by (cases "calculate_section_score (h ! r) pname") auto
  with r have "\<exists>r \<in> set sections. \<exists>e. calculate_section_score (h ! r) pname = Inl e"
    by blast
  with assms(1) have "\<exists>e. score_loop (h @ []) sections pname [] = Inl e"
    by (rule score_loop_raises)
  then obtain e where "score_loop h sections pname [] = Inl e" by auto
  then have "prioritize_sections h sections pname = Inl e"
    by (simp add: prioritize_sections_def)
  with assms(2) show False by simp
qed

text \<open>
  Claim C7. For a persona name that is not one of the four configured ones the scorer
  returns 0.0 for every dictionary, without an error, whatever the dictionary holds.
  The ranker then returns the copies of the sections in the order of its input: the
  copy at position \<open>k\<close> is the one of input section \<open>k\<close>, with \<^verbatim>\<open>relevance_score\<close> 0.0
  and \<^verbatim>\<open>importance_rank\<close> \<open>k + 1\<close>.
\<close>

theorem unknown_persona_keeps_order:
  assumes "pname \<notin> {''executive'', ''technical'', ''marketing'', ''investor''}"
    and "\<forall>r \<in> set sections. r < length h"
  shows "(\<forall>d. calculate_section_score d pname = Inr 0) \<and>
         (\<exists>h'. prioritize_sections h sections pname =
                  Inr (h', [length h ..< length h + length sections]) \<and>
               (\<forall>k < length sections.
                  h' ! (length h + k) = ranked_copy (h ! (sections ! k)) 0 k \<and>
                  map_of (h' ! (length h + k)) ''relevance_score'' = Some (PyFloat 0) \<and>
                  map_of (h' ! (length h + k)) ''importance_rank'' = Some (PyInt (int k + 1))))"
proof -
  from assms(1) have none: "map_of personas pname = None"
    by (simp add: personas_keys)
  then have zero: "\<forall>d. calculate_section_score d pname = Inr 0"
    by (simp add: calculate_section_score_unknown)
  then have s0: "\<And>d. score_of d pname = 0" by (simp add: score_of_def)
  from zero have "\<forall>r \<in> set sections. \<exists>x. calculate_section_score (h ! r) pname = Inr x"
    by simp
  from prioritize_sections_result [OF assms(2) this] obtain h' where
    res: "prioritize_sections h sections pname =
            Inr (h', [length h ..< length h + length sections])"
    and new: "\<forall>k < length sections.
            h' ! ([length h ..< length h + length sections] ! k) =
            ranked_copy
              (h ! (sections ! ([length h ..< length h + length sections] ! k - length h))) 0 k"
    by (auto simp: s0 sort_key_const)
  have "\<forall>k < length sections.
          h' ! (length h + k) = ranked_copy (h ! (sections ! k)) 0 k \<and>
          map_of (h' ! (length h + k)) ''relevance_score'' = Some (PyFloat 0) \<and>
          map_of (h' ! (length h + k)) ''importance_rank'' = Some (PyInt (int k + 1))"
  proof (intro allI impI)
    fix k assume k: "k < length sections"
    with new have "h' ! (length h + k) = ranked_copy (h ! (sections ! k)) 0 k" by simp
    then show "h' ! (length h + k) = ranked_copy (h ! (sections ! k)) 0 k \<and>
          map_of (h' ! (length h + k)) ''relevance_score'' = Some (PyFloat 0) \<and>
          map_of (h' ! (length h + k)) ''importance_rank'' = Some (PyInt (int k + 1))"
      by (simp add: ranked_copy_items py_round2_zero)
  qed
  with zero res show ?thesis by blast
qed

theorem unknown_persona_keeps_order_witness:
  "calculate_section_score [(''title'', PyInt 7)] ''manager'' = Inr 0 \<and>
   (\<exists>h'. prioritize_sections
            [[(''title'', PyStr ''Market''), (''content'', PyStr ''strategy'')],
             [(''title'', PyInt 7)]] [0, 1, 0] ''manager'' = Inr (h', [2, 3, 4]) \<and>
          h' ! 3 = ranked_copy [(''title'', PyInt 7)] 0 1 \<and>
          map_of (h' ! 4) ''importance_rank'' = Some (PyInt 3))"
proof -
  let ?h = "[[(''title'', PyStr ''Market''), (''content'', PyStr ''strategy'')],
             [(''title'', PyInt 7)]]"
  have p: "''manager'' \<notin> {''executive'', ''technical'', ''marketing'', ''investor''}"
    by simp
  have r: "\<forall>r \<in> set [0, 1, 0]. r < length ?h" by simp
  from unknown_persona_keeps_order [OF p r] obtain h' where
    z: "\<forall>d. calculate_section_score d ''manager'' = Inr 0"
    and res: "prioritize_sections ?h [0, 1, 0] ''manager'' =
           Inr (h', [length ?h ..< length ?h + length [0::nat, 1, 0]])"
    and new: "\<forall>k < length [0::nat, 1, 0].
            h' ! (length ?h + k) = ranked_copy (?h ! ([0, 1, 0] ! k)) 0 k \<and>
            map_of (h' ! (length ?h + k)) ''importance_rank'' = Some (PyInt (int k + 1))"
    by blast
  have rng: "[length ?h ..< length ?h + length [0::nat, 1, 0]] = [2, 3, 4]"
    by (simp add: upt_rec)
  have k1: "1 < length [0::nat, 1, 0]" and k2: "2 < length [0::nat, 1, 0]" by simp_all
  have i3: "length ?h + 1 = 3" and i4: "length ?h + 2 = 4" by simp_all
  have s1: "?h ! ([0, 1, 0] ! 1) = [(''title'', PyInt 7)]" by simp
  from new k1 have "h' ! (length ?h + 1) = ranked_copy (?h ! ([0, 1, 0] ! 1)) 0 1" by blast
  then have a: "h' ! 3 = ranked_copy [(''title'', PyInt 7)] 0 1"
    by (simp only: i3 s1)
  from new k2
  have "map_of (h' ! (length ?h + 2)) ''importance_rank'' = Some (PyInt (int 2 + 1))"
    by blast
  then have b: "map_of (h' ! 4) ''importance_rank'' = Some (PyInt 3)"
    by (simp only: i4) simp
  from z res rng a b show ?thesis by auto
qed

text \<open>
  Claim C10. The dictionaries of the input list are not written to: when the ranker
  returns, every object that was in the store before the call, so every section of the
  input list, is what it was, with the same keys and values; the sections of the
  result are new objects. The ranker does return when titles and contents are strings.
\<close>

theorem prioritize_sections_input_unchanged:
  assumes "\<forall>r \<in> set sections. r < length h"
  shows "(\<forall>h' out. prioritize_sections h sections pname = Inr (h', out) \<longrightarrow>
            (\<forall>a < length h. h' ! a = h ! a) \<and>
            (\<forall>r \<in> set sections. h' ! r = h ! r \<and>
               map_of (h' ! r) ''relevance_score'' = map_of (h ! r) ''relevance_score'' \<and>
               map_of (h' ! r) ''importance_rank'' = map_of (h ! r) ''importance_rank'') \<and>
            (\<forall>r \<in> set out. length h \<le> r \<and> r < length h' \<and> r \<notin> set sections)) \<and>
         ((\<forall>r \<in> set sections. scorable (h ! r)) \<longrightarrow>
            (\<exists>h' out. prioritize_sections h sections pname = Inr (h', out)))"
proof (rule conjI)
  show "\<forall>h' out. prioritize_sections h sections pname = Inr (h', out) \<longrightarrow>
            (\<forall>a < length h. h' ! a = h ! a) \<and>
            (\<forall>r \<in> set sections. h' ! r = h ! r \<and>
               map_of (h' ! r) ''relevance_score'' = map_of (h ! r) ''relevance_score'' \<and>
               map_of (h' ! r) ''importance_rank'' = map_of (h ! r) ''importance_rank'') \<and>
            (\<forall>r \<in> set out. length h \<le> r \<and> r < length h' \<and> r \<notin> set sections)"
  proof (intro allI impI)
    fix h' out
    assume res: "prioritize_sections h sections pname = Inr (h', out)"
    then have "\<forall>r \<in> set sections. \<exists>x. calculate_section_score (h ! r) pname = Inr x"
      using assms by (intro prioritize_sections_returns)
    from prioritize_sections_order [OF assms this] res
    have len: "length h' = length h + length sections"
      and set_out: "set out = {length h ..< length h + length sections}"
      and old: "\<forall>a < length h. h' ! a = h ! a"
      by auto
    from old assms have "\<forall>r \<in> set sections. h' ! r = h ! r \<and>
               map_of (h' ! r) ''relevance_score'' = map_of (h ! r) ''relevance_score'' \<and>
               map_of (h' ! r) ''importance_rank'' = map_of (h ! r) ''importance_rank''"
      by simp
    moreover from set_out len assms
    have "\<forall>r \<in> set out. length h \<le> r \<and> r < length h' \<and> r \<notin> set sections"
      by auto
    ultimately show "(\<forall>a < length h. h' ! a = h ! a) \<and>
            (\<forall>r \<in> set sections. h' ! r = h ! r \<and>
               map_of (h' ! r) ''relevance_score'' = map_of (h ! r) ''relevance_score'' \<and>
               map_of (h' ! r) ''importance_rank'' = map_of (h ! r) ''importance_rank'') \<and>
            (\<forall>r \<in> set out. length h \<le> r \<and> r < length h' \<and> r \<notin> set sections)"
      using old by blast
  qed
next
  show "(\<forall>r \<in> set sections. scorable (h ! r)) \<longrightarrow>
            (\<exists>h' out. prioritize_sections h sections pname = Inr (h', out))"
  proof (rule impI)
    assume "\<forall>r \<in> set sections. scorable (h ! r)"
    then have "\<forall>r \<in> set sections. \<exists>x. calculate_section_score (h ! r) pname = Inr x"
      using scorable_score by blast
    from prioritize_sections_result [OF assms this]
    show "\<exists>h' out. prioritize_sections h sections pname = Inr (h', out)" by blast
  qed
qed

theorem prioritize_sections_input_unchanged_witness:
  "\<exists>h' out.
     prioritize_sections
       [[(''title'', PyStr ''Market''), (''content'', PyStr ''x''), (''page_number'', PyInt 1)],
        [(''title'', PyStr ''Other''), (''content'', PyStr ''strategy''), (''page_number'', PyInt 2)]]
       [0, 1] ''executive'' = Inr (h', out) \<and>
     h' ! 0 = [(''title'', PyStr ''Market''), (''content'', PyStr ''x''), (''page_number'', PyInt 1)] \<and>
     h' ! 1 = [(''title'', PyStr ''Other''), (''content'', PyStr ''strategy''),
               (''page_number'', PyInt 2)] \<and>
     map_of (h' ! 0) ''relevance_score'' = None \<and>
     map_of (h' ! 1) ''importance_rank'' = None"
proof -
  let ?h = "[[(''title'', PyStr ''Market''), (''content'', PyStr ''x''), (''page_number'', PyInt 1)],
        [(''title'', PyStr ''Other''), (''content'', PyStr ''strategy''), (''page_number'', PyInt 2)]]"
  have r: "\<forall>r \<in> set [0, 1]. r < length ?h" by simp
  have s: "\<forall>r \<in> set [0, 1]. scorable (?h ! r)"
    by (simp add: scorable_def str_item_def)
  from prioritize_sections_input_unchanged [OF r, of "''executive''"] s
  obtain h' out where res: "prioritize_sections ?h [0, 1] ''executive'' = Inr (h', out)"
    by blast
  with prioritize_sections_input_unchanged [OF r, of "''executive''"]
  have "\<forall>r \<in> set [0, 1]. h' ! r = ?h ! r" by blast
  then have "h' ! 0 = ?h ! 0" and "h' ! 1 = ?h ! 1" by simp_all
  with res show ?thesis by simp
qed

section \<open>Properties of the validators\<close>

lemma rank_check_ranks: "snd (rank_check i section) = section_ranks section"
  by (simp add: rank_check_def section_ranks_def split: option.splits)

lemma text_check_ok:
  "text_or_absent section key \<Longrightarrow>
   text_check section key n message = Inr (text_messages section key n message)"
  by (auto simp: text_or_absent_def text_check_def text_messages_def
      split: option.splits pyval.splits)

lemma validate_loop_result:
  assumes "\<forall>d \<in> set secs. text_or_absent d ''title'' \<and> text_or_absent d ''content''"
  shows "validate_loop i secs errors ranks =
           Inr (errors @ concat (map (\<lambda>(k, d). section_messages k d) (List.enumerate i secs)),
                ranks @ concat (map section_ranks secs))"
  using assms
proof (induction secs arbitrary: i errors ranks)
  case Nil
  then show ?case by simp
next
  case (Cons d secs)
  from Cons.prems have t: "text_check d ''title'' 2 (TitleTooShort (i + 1)) =
      Inr (text_messages d ''title'' 2 (TitleTooShort (i + 1)))"
    and c: "text_check d ''content'' 10 (ContentTooShort (i + 1)) =
      Inr (text_messages d ''content'' 10 (ContentTooShort (i + 1)))"
    by (simp_all add: text_check_ok)
  obtain re rk where rc: "rank_check i d = (re, rk)" by (cases "rank_check i d")
  then have rk: "rk = section_ranks d" using rank_check_ranks [of i d] by simp
  have step: "validate_loop i (d # secs) errors ranks =
      validate_loop (i + 1) secs (errors @ section_messages i d) (ranks @ section_ranks d)"
    by (simp only: validate_loop.simps Let_def rc split_conv t c sum.case)
       (simp add: section_messages_def rc rk)
  from Cons.prems have "\<forall>d \<in> set secs. text_or_absent d ''title'' \<and> text_or_absent d ''content''"
    by simp
  from Cons.IH [OF this] show ?case
    unfolding step by simp
qed

lemma validate_sections_result:
  assumes "\<forall>d \<in> set sections. text_or_absent d ''title'' \<and> text_or_absent d ''content''"
  shows "validate_sections sections =
     Inr (concat (map (\<lambda>(k, d). section_messages k d) (List.enumerate 0 sections)) @
          (if {1 .. int (length sections)} \<noteq> set (concat (map section_ranks sections))
           then [RanksNotSequential {1 .. int (length sections)}
                   (set (concat (map section_ranks sections)))]
           else []))"
  by (simp add: validate_sections_def validate_loop_result [OF assms] Let_def)

text \<open>
  Claim C9. The validators are to return a list of messages for every input and never
  to raise. \<^verbatim>\<open>validate_sections\<close> does not do so: for a section whose title is
  \<^verbatim>\<open>None\<close> it raises \<^verbatim>\<open>AttributeError\<close>, because the checks of title and content call
  \<^verbatim>\<open>strip\<close> without a test of the type. The checks of rank, score and page number do
  test the type and append a message: the same section with a string as title and
  \<^verbatim>\<open>None\<close> as page number gives the list with that one message.
\<close>

theorem validate_sections_raises_on_none_title:
  "validate_sections
     [[(''title'', PyNone), (''content'', PyStr ''long enough content''),
       (''page_number'', PyInt 1), (''importance_rank'', PyInt 1),
       (''relevance_score'', PyFloat (1 / 2))]] = Inl (AttributeError ''strip'') \<and>
   validate_sections
     [[(''title'', PyStr ''Summary''), (''content'', PyStr ''long enough content''),
       (''page_number'', PyNone), (''importance_rank'', PyInt 1),
       (''relevance_score'', PyFloat (1 / 2))]] = Inr [PageNotPositiveInteger 1 PyNone]"
  by (simp add: validate_sections_def rank_check_def text_check_def missing_fields_def
      required_fields_def score_check_def page_check_def is_int_def int_value_def
      is_number_def in_unit_interval_def strip_def isspace_def code_point_def)

section \<open>Properties of the document pipeline\<close>

lemma scorable_section_dict: "scorable (section_dict s)"
  by (simp add: scorable_def str_item_def section_dict_def)

lemma text_or_absent_ranked_copy:
  "scorable d \<Longrightarrow>
   text_or_absent (ranked_copy d x k) ''title'' \<and> text_or_absent (ranked_copy d x k) ''content''"
  by (auto simp: scorable_def str_item_def text_or_absent_def ranked_copy_def update_conv
      split: option.splits pyval.splits)

lemma process_document_result:
  assumes "text \<noteq> []"
  shows "\<exists>results h' ranked.
     prioritize_sections (map section_dict (extract_sections text))
       [0 ..< length (extract_sections text)] pname = Inr (h', ranked) \<and>
     length ranked = length (extract_sections text) \<and>
     (\<forall>k < length (extract_sections text).
        map_of (h' ! (ranked ! k)) ''importance_rank'' = Some (PyInt (int k + 1))) \<and>
     process_document V now pdf_name text pname = Inr results \<and>
     results =
       [(''document'', PyStr pdf_name),
        (''persona'', PyStr pname),
        (''job_to_be_done'',
         PyStr (''Prioritize document sections for '' @ pname @
                '' persona based on relevance and importance'')),
        (''processing_timestamp'', PyStr now),
        (''total_sections'', PyInt (int (length (extract_sections text)))),
        (''sections'', PyList (map (\<lambda>r. PyDict (h' ! r)) (take 10 ranked)))]"
proof -
  define h where "h = map section_dict (extract_sections text)"
  define N where "N = length (extract_sections text)"
  have lh: "length h = N" by (simp add: h_def N_def)
  have refs: "\<forall>r \<in> set [0 ..< N]. r < length h" by (simp add: lh)
  have sc: "\<And>r. r < N \<Longrightarrow> scorable (h ! r)"
    by (simp add: h_def N_def scorable_section_dict)
  have "\<forall>r \<in> set [0 ..< N]. \<exists>x. calculate_section_score (h ! r) pname = Inr x"
  proof
    fix r assume "r \<in> set [0 ..< N]"
    then have "scorable (h ! r)" by (simp add: sc)
    from scorable_score [OF this, of pname]
    show "\<exists>x. calculate_section_score (h ! r) pname = Inr x" by blast
  qed
  from prioritize_sections_order [OF refs this] obtain h' ranked perm where
    res: "prioritize_sections h [0 ..< N] pname = Inr (h', ranked)"
    and len: "length ranked = N"
    and perm: "mset perm = mset [0 ..< N]"
    and new: "\<forall>k < N. h' ! (ranked ! k) =
                ranked_copy (h ! ([0 ..< N] ! (perm ! k)))
                  (score_of (h ! ([0 ..< N] ! (perm ! k))) pname) k"
    by auto
  from perm have lp: "length perm = N" using mset_eq_length by fastforce
  from perm have sp: "set perm = {0 ..< N}" using mset_eq_setD by fastforce
  have pk: "\<And>k. k < N \<Longrightarrow> perm ! k < N"
  proof -
    fix k assume "k < N"
    then have "perm ! k \<in> set perm" by (simp add: lp)
    then show "perm ! k < N" by (simp add: sp)
  qed
  have ranks: "\<forall>k < N. map_of (h' ! (ranked ! k)) ''importance_rank'' = Some (PyInt (int k + 1))"
    using new by (simp add: ranked_copy_items)
  have ok: "\<forall>d \<in> set (map (\<lambda>r. h' ! r) (take 10 ranked)).
              text_or_absent d ''title'' \<and> text_or_absent d ''content''"
  proof
    fix d assume "d \<in> set (map (\<lambda>r. h' ! r) (take 10 ranked))"
    then obtain r where r: "r \<in> set (take 10 ranked)" and d: "d = h' ! r" by auto
    from r have "r \<in> set ranked" by (rule in_set_takeD)
    then obtain k where k: "k < N" and rk: "r = ranked ! k"
      using len by (auto simp: in_set_conv_nth)
    from new k rk d have "d = ranked_copy (h ! ([0 ..< N] ! (perm ! k)))
                  (score_of (h ! ([0 ..< N] ! (perm ! k))) pname) k" by simp
    moreover have "scorable (h ! ([0 ..< N] ! (perm ! k)))"
      using pk [OF k] by (simp add: sc)
    ultimately show "text_or_absent d ''title'' \<and> text_or_absent d ''content''"
      by (simp add: text_or_absent_ranked_copy)
  qed
  from validate_sections_result [OF ok]
  obtain section_errors where
    v: "validate_sections (map (\<lambda>r. h' ! r) (take 10 ranked)) = Inr section_errors"
    by blast
  have "process_document V now pdf_name text pname =
     Inr [(''document'', PyStr pdf_name),
        (''persona'', PyStr pname),
        (''job_to_be_done'',
         PyStr (''Prioritize document sections for '' @ pname @
                '' persona based on relevance and importance'')),
        (''processing_timestamp'', PyStr now),
        (''total_sections'', PyInt (int N)),
        (''sections'', PyList (map (\<lambda>r. PyDict (h' ! r)) (take 10 ranked)))]"
    using assms res v
    by (simp add: process_document_def Let_def h_def [symmetric] lh N_def [symmetric])
  with res len ranks show ?thesis
    unfolding h_def N_def by blast
qed

text \<open>
  Claim C2. When the segmenter yields more than 10 sections of a document, the record
  holds, under \<^verbatim>\<open>sections\<close>, the first 10 dictionaries of the ranking of all the
  sections, as the ranker left them: their ranks are the ones of the full ranking (the
  dictionary at position \<open>k\<close> has rank \<open>k + 1\<close>, a number between 1 and the number of
  all sections), and \<^verbatim>\<open>total_sections\<close> is the number of all the sections.
\<close>

theorem process_document_truncation:
  assumes "text \<noteq> []"
    and "10 < length (extract_sections text)"
  shows "\<exists>results h' ranked.
     prioritize_sections (map section_dict (extract_sections text))
       [0 ..< length (extract_sections text)] pname = Inr (h', ranked) \<and>
     length ranked = length (extract_sections text) \<and>
     process_document V now pdf_name text pname = Inr results \<and>
     map_of results ''sections'' = Some (PyList (map (\<lambda>r. PyDict (h' ! r)) (take 10 ranked))) \<and>
     length (take 10 ranked) = 10 \<and>
     map_of results ''total_sections'' = Some (PyInt (int (length (extract_sections text)))) \<and>
     (\<forall>k < 10.
        map_of (h' ! (take 10 ranked ! k)) ''importance_rank'' = Some (PyInt (int k + 1)) \<and>
        int k + 1 \<le> int (length (extract_sections text)))"
proof -
  from process_document_result [OF assms(1), of pname V now pdf_name]
  obtain results h' ranked where
    res: "prioritize_sections (map section_dict (extract_sections text))
            [0 ..< length (extract_sections text)] pname = Inr (h', ranked)"
    and len: "length ranked = length (extract_sections text)"
    and ranks: "\<forall>k < length (extract_sections text).
        map_of (h' ! (ranked ! k)) ''importance_rank'' = Some (PyInt (int k + 1))"
    and doc: "process_document V now pdf_name text pname = Inr results"
    and results: "results =
       [(''document'', PyStr pdf_name),
        (''persona'', PyStr pname),
        (''job_to_be_done'',
         PyStr (''Prioritize document sections for '' @ pname @
                '' persona based on relevance and importance'')),
        (''processing_timestamp'', PyStr now),
        (''total_sections'', PyInt (int (length (extract_sections text)))),
        (''sections'', PyList (map (\<lambda>r. PyDict (h' ! r)) (take 10 ranked)))]"
    by blast
  from results have s: "map_of results ''sections'' =
      Some (PyList (map (\<lambda>r. PyDict (h' ! r)) (take 10 ranked)))"
    and t: "map_of results ''total_sections'' = Some (PyInt (int (length (extract_sections text))))"
    by simp_all
  from len assms(2) have l10: "length (take 10 ranked) = 10" by simp
  have r10: "\<forall>k < 10.
        map_of (h' ! (take 10 ranked ! k)) ''importance_rank'' = Some (PyInt (int k + 1)) \<and>
        int k + 1 \<le> int (length (extract_sections text))"
    using ranks assms(2) by simp
  from res len doc s l10 t r10 show ?thesis by blast
qed

theorem process_document_truncation_witness:
  "length (extract_sections
     (concat (replicate 15 (''Part:'' @ [CHR 0x0A] @ ''some content here'' @ [CHR 0x0A])))) = 15 \<and>
   (\<exists>results h' ranked.
      process_document (\<lambda>data. Valid) ''2026-11-04T12:00:00'' ''report.pdf''
        (concat (replicate 15 (''Part:'' @ [CHR 0x0A] @ ''some content here'' @ [CHR 0x0A])))
        ''executive'' = Inr results \<and>
      map_of results ''total_sections'' = Some (PyInt 15) \<and>
      length (take 10 ranked) = 10 \<and>
      map_of results ''sections'' = Some (PyList (map (\<lambda>r. PyDict (h' ! r)) (take 10 ranked))) \<and>
      map_of (h' ! (take 10 ranked ! 9)) ''importance_rank'' = Some (PyInt 10))"
proof -
  define doc where
    "doc = concat (replicate 15 (''Part:'' @ [CHR 0x0A] @ ''some content here'' @ [CHR 0x0A]))"
  have n: "length (extract_sections doc) = 15"
    unfolding doc_def by code_simp
  have ne: "doc \<noteq> []"
    unfolding doc_def by code_simp
  from n have big: "10 < length (extract_sections doc)" by simp
  from process_document_truncation [OF ne big, of "''executive''" "\<lambda>data. Valid"
      "''2026-11-04T12:00:00''" "''report.pdf''"]
  obtain results h' ranked where
    d: "process_document (\<lambda>data. Valid) ''2026-11-04T12:00:00'' ''report.pdf'' doc ''executive''
         = Inr results"
    and s: "map_of results ''sections'' =
              Some (PyList (map (\<lambda>r. PyDict (h' ! r)) (take 10 ranked)))"
    and l: "length (take 10 ranked) = 10"
    and t: "map_of results ''total_sections'' = Some (PyInt (int (length (extract_sections doc))))"
    and r: "\<forall>k < 10.
        map_of (h' ! (take 10 ranked ! k)) ''importance_rank'' = Some (PyInt (int k + 1)) \<and>
        int k + 1 \<le> int (length (extract_sections doc))"
    by (elim exE conjE)
  from t n have t15: "map_of results ''total_sections'' = Some (PyInt 15)" by simp
  have "(9::nat) < 10" by simp
  with r have "map_of (h' ! (take 10 ranked ! 9)) ''importance_rank'' = Some (PyInt (int 9 + 1))"
    by blast
  then have r9: "map_of (h' ! (take 10 ranked ! 9)) ''importance_rank'' = Some (PyInt 10)"
    by simp
  from n d t15 l s r9 show ?thesis unfolding doc_def by blast
qed

end
